theory Spec2Isabelle
  imports Main
begin

section \<open>Strings of the source language\<close>

text \<open>
  The program under study is \<^verbatim>\<open>src/components/ChatInterface.tsx\<close>: the functions
  \<^verbatim>\<open>parseMarkdown\<close>, \<^verbatim>\<open>processBoldAndCitations\<close> and \<^verbatim>\<open>processCitations\<close>.
  A JavaScript string is a sequence of UTF-16 code units; the regular expressions of the
  source carry no \<^verbatim>\<open>u\<close> flag, so they too work on code units. A code unit is modelled
  as a natural number (the bullet \<^verbatim>\<open>U+2022\<close> is the single unit \<open>0x2022\<close>).
\<close>

type_synonym code_unit = nat
type_synonym jsstring = "code_unit list"

text \<open>ASCII literals: \<open>js ''abc''\<close> is the JavaScript string \<^verbatim>\<open>"abc"\<close>.\<close>

definition js :: "string \<Rightarrow> jsstring" where
  "js s = map of_char s"

definition LF :: code_unit where "LF = 0x0A"
definition STAR :: code_unit where "STAR = 0x2A"
definition BULLET :: code_unit where "BULLET = 0x2022"
definition DASH :: code_unit where "DASH = 0x2D"
definition PLUS :: code_unit where "PLUS = 0x2B"
definition DOT :: code_unit where "DOT = 0x2E"
definition COLON :: code_unit where "COLON = 0x3A"
definition LBRACKET :: code_unit where "LBRACKET = 0x5B"
definition RBRACKET :: code_unit where "RBRACKET = 0x5D"

text \<open>The delimiter \<^verbatim>\<open>**\<close>.\<close>

definition stars :: jsstring where
  "stars = [STAR, STAR]"

subsection \<open>Character classes of the regular expressions\<close>

text \<open>
  \<^verbatim>\<open>.\<close> matches every code unit but a line terminator (LF, CR, U+2028, U+2029).
\<close>

definition is_line_terminator :: "code_unit \<Rightarrow> bool" where
  "is_line_terminator c \<longleftrightarrow> c = 0x0A \<or> c = 0x0D \<or> c = 0x2028 \<or> c = 0x2029"

definition is_dot :: "code_unit \<Rightarrow> bool" where
  "is_dot c \<longleftrightarrow> \<not> is_line_terminator c"

text \<open>
  \<^verbatim>\<open>\s\<close>, and what \<^verbatim>\<open>String.prototype.trim\<close> removes: the white space
  code points and the line terminators of ECMAScript.
\<close>

definition is_whitespace :: "code_unit \<Rightarrow> bool" where
  "is_whitespace c \<longleftrightarrow>
     c = 0x09 \<or> c = 0x0B \<or> c = 0x0C \<or> c = 0x20 \<or> c = 0xA0 \<or> c = 0x1680 \<or>
     (0x2000 \<le> c \<and> c \<le> 0x200A) \<or> c = 0x202F \<or> c = 0x205F \<or> c = 0x3000 \<or>
     c = 0xFEFF \<or> is_line_terminator c"

text \<open>\<^verbatim>\<open>\d\<close> is \<^verbatim>\<open>[0-9]\<close>.\<close>

definition is_digit :: "code_unit \<Rightarrow> bool" where
  "is_digit c \<longleftrightarrow> 0x30 \<le> c \<and> c \<le> 0x39"

text \<open>The class \<^verbatim>\<open>[\*\<bullet>\-]\<close> of bullet markers.\<close>

definition is_bullet :: "code_unit \<Rightarrow> bool" where
  "is_bullet c \<longleftrightarrow> c = STAR \<or> c = BULLET \<or> c = DASH"

subsection \<open>String operations\<close>

text \<open>\<^verbatim>\<open>s.trim()\<close>\<close>

definition trim :: "jsstring \<Rightarrow> jsstring" where
  "trim s = rev (dropWhile is_whitespace (rev (dropWhile is_whitespace s)))"

text \<open>
  \<^verbatim>\<open>text.split('\n')\<close>: the pieces between line feeds; a string with \<open>n\<close> line feeds
  has \<open>n + 1\<close> pieces, and the empty string has the one piece \<^verbatim>\<open>""\<close>.
\<close>

primrec split_lf :: "jsstring \<Rightarrow> jsstring list" where
  "split_lf [] = [[]]"
| "split_lf (c # cs) =
     (if c = LF then [] # split_lf cs
      else (c # hd (split_lf cs)) # tl (split_lf cs))"

text \<open>\<^verbatim>\<open>s.slice(a, b)\<close> for \<open>0 \<le> a\<close>, \<open>0 \<le> b\<close> (empty when \<open>b \<le> a\<close>).\<close>

definition slice :: "jsstring \<Rightarrow> nat \<Rightarrow> nat \<Rightarrow> jsstring" where
  "slice s a b = take (b - a) (drop a s)"

text \<open>Whether \<open>s\<close> starts with the literal \<open>p\<close>.\<close>

definition starts_with :: "jsstring \<Rightarrow> jsstring \<Rightarrow> bool" where
  "starts_with p s \<longleftrightarrow> take (length p) s = p"

section \<open>The regular expressions used as tests\<close>

text \<open>
  A regular expression used only through \<^verbatim>\<open>match\<close> as a condition is a yes/no
  question: is there a way to match it. The backtracking matcher tries every split, so
  each quantifier is modelled with the continuation \<open>K\<close> that must match the rest.
  \<open>star_then P K\<close> is \<^verbatim>\<open>X*\<close> followed by \<open>K\<close> for a one-character class \<open>X = P\<close>:
  it takes a character and goes on, or stops here.
\<close>

fun star_then :: "(code_unit \<Rightarrow> bool) \<Rightarrow> (jsstring \<Rightarrow> bool) \<Rightarrow> jsstring \<Rightarrow> bool" where
  "star_then P K [] = K []"
| "star_then P K (c # cs) = ((P c \<and> star_then P K cs) \<or> K (c # cs))"

text \<open>\<^verbatim>\<open>X+\<close> followed by \<open>K\<close>.\<close>

definition plus_then :: "(code_unit \<Rightarrow> bool) \<Rightarrow> (jsstring \<Rightarrow> bool) \<Rightarrow> jsstring \<Rightarrow> bool" where
  "plus_then P K s = (case s of [] \<Rightarrow> False | c # cs \<Rightarrow> P c \<and> star_then P K cs)"

text \<open>One character of the class \<open>P\<close>, followed by \<open>K\<close>.\<close>

definition one_then :: "(code_unit \<Rightarrow> bool) \<Rightarrow> (jsstring \<Rightarrow> bool) \<Rightarrow> jsstring \<Rightarrow> bool" where
  "one_then P K s = (case s of [] \<Rightarrow> False | c # cs \<Rightarrow> P c \<and> K cs)"

text \<open>The literal \<open>p\<close>, followed by \<open>K\<close>.\<close>

definition lit_then :: "jsstring \<Rightarrow> (jsstring \<Rightarrow> bool) \<Rightarrow> jsstring \<Rightarrow> bool" where
  "lit_then p K s = (starts_with p s \<and> K (drop (length p) s))"

text \<open>\<^verbatim>\<open>:?\<close> followed by \<open>K\<close>.\<close>

definition opt_colon_then :: "(jsstring \<Rightarrow> bool) \<Rightarrow> jsstring \<Rightarrow> bool" where
  "opt_colon_then K s = (lit_then [COLON] K s \<or> K s)"

text \<open>The end of the pattern: whatever is left is accepted.\<close>

definition accept :: "jsstring \<Rightarrow> bool" where
  "accept s = True"

text \<open>\<^verbatim>\<open>$\<close> (no \<^verbatim>\<open>m\<close> flag): the end of the string.\<close>

definition at_end :: "jsstring \<Rightarrow> bool" where
  "at_end s = (s = [])"

text \<open>Line 32: \<^verbatim>\<open>/^[\*\<bullet>\-]\s*\*\*.*\*\*:?/\<close>\<close>

definition rx_bullet_header :: "jsstring \<Rightarrow> bool" where
  "rx_bullet_header =
     one_then is_bullet (star_then is_whitespace
       (lit_then stars (star_then is_dot (lit_then stars (opt_colon_then accept)))))"

text \<open>Line 43: \<^verbatim>\<open>/^[\*\<bullet>\-]\s+[\*\<bullet>\-]/\<close>\<close>

definition rx_nested :: "jsstring \<Rightarrow> bool" where
  "rx_nested = one_then is_bullet (plus_then is_whitespace (one_then is_bullet accept))"

text \<open>Line 55: \<^verbatim>\<open>/^[\*\<bullet>\-]\s/\<close>\<close>

definition rx_bullet :: "jsstring \<Rightarrow> bool" where
  "rx_bullet = one_then is_bullet (one_then is_whitespace accept)"

text \<open>Line 65: \<^verbatim>\<open>/^\+\s/\<close>\<close>

definition rx_plus :: "jsstring \<Rightarrow> bool" where
  "rx_plus = lit_then [PLUS] (one_then is_whitespace accept)"

text \<open>Line 75: \<^verbatim>\<open>/^\d+\.\s/\<close>\<close>

definition rx_numbered :: "jsstring \<Rightarrow> bool" where
  "rx_numbered = plus_then is_digit (lit_then [DOT] (one_then is_whitespace accept))"

text \<open>Line 86: \<^verbatim>\<open>/^\*\*.*\*\*:?\s*$/\<close>\<close>

definition rx_header :: "jsstring \<Rightarrow> bool" where
  "rx_header =
     lit_then stars (star_then is_dot
       (lit_then stars (opt_colon_then (star_then is_whitespace at_end))))"

section \<open>The replacements\<close>

text \<open>
  \<^verbatim>\<open>s.replace(rx, '')\<close> with an anchored pattern removes the match at the start, or
  returns \<open>s\<close> unchanged when there is none. In each pattern below a greedy quantifier is
  followed by nothing or by a character outside its class, so the match is the longest
  run: \<open>dropWhile\<close>.
\<close>

text \<open>Lines 34 and 57: \<^verbatim>\<open>.replace(/^[\*\<bullet>\-]\s*/, '')\<close>\<close>

definition strip_bullet :: "jsstring \<Rightarrow> jsstring" where
  "strip_bullet s =
     (case s of [] \<Rightarrow> s
      | b # r \<Rightarrow> if is_bullet b then dropWhile is_whitespace r else s)"

text \<open>Line 45: \<^verbatim>\<open>.replace(/^[\*\<bullet>\-]\s+[\*\<bullet>\-]\s*/, '')\<close>\<close>

definition strip_nested :: "jsstring \<Rightarrow> jsstring" where
  "strip_nested s =
     (case s of [] \<Rightarrow> s
      | b # r \<Rightarrow>
         if is_bullet b \<and> takeWhile is_whitespace r \<noteq> [] then
           (case dropWhile is_whitespace r of [] \<Rightarrow> s
            | b2 # r2 \<Rightarrow> if is_bullet b2 then dropWhile is_whitespace r2 else s)
         else s)"

text \<open>Line 67: \<^verbatim>\<open>.replace(/^\+\s*/, '')\<close>\<close>

definition strip_plus :: "jsstring \<Rightarrow> jsstring" where
  "strip_plus s =
     (case s of [] \<Rightarrow> s
      | b # r \<Rightarrow> if b = PLUS then dropWhile is_whitespace r else s)"

text \<open>Line 77: \<^verbatim>\<open>.replace(/^\d+\.\s*/, '')\<close>\<close>

definition strip_number :: "jsstring \<Rightarrow> jsstring" where
  "strip_number s =
     (if takeWhile is_digit s \<noteq> [] then
        (case dropWhile is_digit s of [] \<Rightarrow> s
         | d # r \<Rightarrow> if d = DOT then dropWhile is_whitespace r else s)
      else s)"

text \<open>
  Line 78: \<^verbatim>\<open>trimmedLine.match(/^(\d+)\./)?.[1] || '1'\<close>: the leading digits when a
  dot follows them (a non-empty string, so truthy), else \<^verbatim>\<open>'1'\<close>.
\<close>

definition number_label :: "jsstring \<Rightarrow> jsstring" where
  "number_label s =
     (if takeWhile is_digit s \<noteq> [] \<and> starts_with [DOT] (dropWhile is_digit s)
      then takeWhile is_digit s else js ''1'')"

section \<open>The rendered elements\<close>

text \<open>
  The source builds React elements. The model keeps their structure and their
  \<^verbatim>\<open>key\<close>s and leaves out the constant \<^verbatim>\<open>className\<close> strings. An inline part is a
  string, a \<^verbatim>\<open><strong key=bold-n>{boldText}{colon}</strong>\<close>, or the citation
  \<^verbatim>\<open><span key=citation-k-n title="Source d">[d]</span>\<close>.
\<close>

datatype part =
    Str jsstring
  | Strong nat jsstring jsstring
  | CitationSpan nat nat jsstring

text \<open>
  What \<^verbatim>\<open>processCitations\<close> and \<^verbatim>\<open>processBoldAndCitations\<close> return is either the
  string they were given (\<open>Inl\<close>) or an array of parts (\<open>Inr\<close>).
\<close>

type_synonym rendered = "jsstring + part list"

text \<open>
  One \<^verbatim>\<open><div>\<close> per branch of the loop body of \<^verbatim>\<open>parseMarkdown\<close>; the first
  argument is the index of the line (\<^verbatim>\<open>key = line-index\<close>).
\<close>

datatype block =
    Spacer nat
  | BulletHeader nat rendered
  | NestedNumberedItem nat nat rendered
  | BulletItem nat rendered
  | PlusBulletItem nat rendered
  | NumberedItem nat jsstring rendered
  | Header nat rendered
  | Paragraph nat rendered

text \<open>
  The one error these functions can raise: the \<^verbatim>\<open>RangeError\<close> of a call that is
  given more arguments than the engine takes.
\<close>

datatype error = RangeError

section \<open>processCitations\<close>

text \<open>
  \<^verbatim>\<open>/\[(\d+)\]/\<close> tried at the start of \<open>s\<close>: the captured digits. The greedy
  \<^verbatim>\<open>\d+\<close> is followed by \<^verbatim>\<open>\]\<close>, which is no digit, so only the longest run can
  match.
\<close>

definition citation_at :: "jsstring \<Rightarrow> jsstring option" where
  "citation_at s =
     (case s of [] \<Rightarrow> None
      | c # cs \<Rightarrow>
         if c = LBRACKET \<and> takeWhile is_digit cs \<noteq> [] \<and>
            starts_with [RBRACKET] (dropWhile is_digit cs)
         then Some (takeWhile is_digit cs) else None)"

text \<open>
  The leftmost match in \<open>s\<close>: its offset and its digits.
\<close>

fun citation_search :: "jsstring \<Rightarrow> (nat \<times> jsstring) option" where
  "citation_search [] = None"
| "citation_search (c # cs) =
     (case citation_at (c # cs) of
        Some ds \<Rightarrow> Some (0, ds)
      | None \<Rightarrow> map_option (\<lambda>(i, ds). (Suc i, ds)) (citation_search cs))"

text \<open>
  \<^verbatim>\<open>citationRegex.exec(text)\<close> with the regex's \<^verbatim>\<open>lastIndex\<close> at \<open>pos\<close>:
  \<^verbatim>\<open>match.index\<close> and \<^verbatim>\<open>match[1]\<close>, or \<open>None\<close> for \<^verbatim>\<open>null\<close>.
\<close>

definition citation_exec :: "jsstring \<Rightarrow> nat \<Rightarrow> (nat \<times> jsstring) option" where
  "citation_exec text pos =
     map_option (\<lambda>(i, ds). (pos + i, ds)) (citation_search (drop pos text))"

lemma citation_at_Some:
  "citation_at s = Some ds \<Longrightarrow>
     \<exists>post. s = LBRACKET # ds @ RBRACKET # post \<and> ds \<noteq> [] \<and> (\<forall>d\<in>set ds. is_digit d)"
proof -
  assume a: "citation_at s = Some ds"
  then obtain c cs where s: "s = c # cs" by (cases s) (auto simp: citation_at_def)
  from a s have c: "c = LBRACKET" and ds: "ds = takeWhile is_digit cs" and ne: "ds \<noteq> []"
    and r: "starts_with [RBRACKET] (dropWhile is_digit cs)"
    by (auto simp: citation_at_def split: if_splits)
  from r obtain post where post: "dropWhile is_digit cs = RBRACKET # post"
    by (cases "dropWhile is_digit cs") (auto simp: starts_with_def)
  have "cs = ds @ RBRACKET # post"
    using takeWhile_dropWhile_id [of is_digit cs] ds post by simp
  moreover have "\<forall>d\<in>set ds. is_digit d"
    using ds by (auto dest: set_takeWhileD)
  ultimately show ?thesis using s c ne by blast
qed

lemma citation_search_bound:
  "citation_search s = Some (i, ds) \<Longrightarrow> i + length ds + 2 \<le> length s"
proof (induction s arbitrary: i)
  case Nil
  then show ?case by simp
next
  case (Cons c cs)
  show ?case
  proof (cases "citation_at (c # cs)")
    case None
    with Cons.prems obtain j where j: "citation_search cs = Some (j, ds)" "i = Suc j"
      by auto
    from Cons.IH [OF j(1)] j(2) show ?thesis by simp
  next
    case (Some e)
    with Cons.prems have i: "i = 0" and e: "e = ds" by auto
    from citation_at_Some [OF Some] e obtain post where "c # cs = LBRACKET # ds @ RBRACKET # post"
      by blast
    then have "length (c # cs) = length (LBRACKET # ds @ RBRACKET # post)" by simp
    with i show ?thesis by simp
  qed
qed

lemma citation_exec_bound:
  "citation_exec t pos = Some (index, ds) \<Longrightarrow>
     pos \<le> index \<and> index + length ds + 2 \<le> length t"
proof -
  assume "citation_exec t pos = Some (index, ds)"
  then obtain i where i: "citation_search (drop pos t) = Some (i, ds)" "index = pos + i"
    by (auto simp: citation_exec_def)
  from citation_search_bound [OF i(1)] i(2) show ?thesis by simp
qed

text \<open>
  The \<^verbatim>\<open>while\<close> loop of \<^verbatim>\<open>processCitations\<close>. The local \<^verbatim>\<open>lastIndex\<close> and the
  regex's own \<^verbatim>\<open>lastIndex\<close> both start at 0 and are both set to the end of each
  match, so one position \<open>lastIndex\<close> stands for the two. The result is the final
  \<^verbatim>\<open>lastIndex\<close> and \<^verbatim>\<open>parts\<close>.
\<close>

function citation_loop :: "jsstring \<Rightarrow> nat \<Rightarrow> nat \<Rightarrow> part list \<Rightarrow> nat \<times> part list" where
  "citation_loop text keyOffset lastIndex parts =
     (case citation_exec text lastIndex of
        None \<Rightarrow> (lastIndex, parts)
      | Some (index, ds) \<Rightarrow>
          (let parts1 = (if index > lastIndex
                         then parts @ [Str (slice text lastIndex index)] else parts);
               parts2 = parts1 @ [CitationSpan keyOffset (length parts1) ds]
           in citation_loop text keyOffset (index + (length ds + 2)) parts2))"
  by pat_completeness auto
termination
  by (relation "measure (\<lambda>(t, keyOffset, lastIndex, parts). length t - lastIndex)")
     (auto dest!: citation_exec_bound)

declare citation_loop.simps [simp del]

text \<open>Lines 155-187.\<close>

definition processCitations :: "jsstring \<Rightarrow> nat \<Rightarrow> rendered" where
  "processCitations text keyOffset =
     (let (lastIndex, parts0) = citation_loop text keyOffset 0 [];
          parts = (if lastIndex < length text
                   then parts0 @ [Str (slice text lastIndex (length text))] else parts0)
      in if length parts > 1 then Inr parts else Inl text)"

section \<open>processBoldAndCitations\<close>

text \<open>
  The lazy \<^verbatim>\<open>(.*?)\<close> followed by \<^verbatim>\<open>\*\*\<close>: the shortest run of non-terminators
  after which the delimiter stands. The result is the captured run and what follows the
  closing delimiter; \<open>None\<close> when a line terminator or the end comes first.
\<close>

fun lazy_until_stars :: "jsstring \<Rightarrow> (jsstring \<times> jsstring) option" where
  "lazy_until_stars [] = None"
| "lazy_until_stars (c # cs) =
     (if starts_with stars (c # cs) then Some ([], drop 2 (c # cs))
      else if is_dot c then map_option (\<lambda>(x, r). (c # x, r)) (lazy_until_stars cs)
      else None)"

text \<open>
  \<^verbatim>\<open>/\*\*(.*?)\*\*(:?)/\<close> tried at the start of \<open>s\<close>: the two captures
  \<^verbatim>\<open>match[1]\<close> and \<^verbatim>\<open>match[2]\<close>. The greedy \<^verbatim>\<open>:?\<close> ends the pattern, so it takes
  the colon whenever one is there.
\<close>

definition bold_at :: "jsstring \<Rightarrow> (jsstring \<times> jsstring) option" where
  "bold_at s =
     (if starts_with stars s then
        (case lazy_until_stars (drop 2 s) of
           None \<Rightarrow> None
         | Some (x, r) \<Rightarrow> Some (x, if starts_with [COLON] r then [COLON] else []))
      else None)"

text \<open>The leftmost match in \<open>s\<close>: its offset and its captures.\<close>

fun bold_search :: "jsstring \<Rightarrow> (nat \<times> jsstring \<times> jsstring) option" where
  "bold_search [] = None"
| "bold_search (c # cs) =
     (case bold_at (c # cs) of
        Some (x, colon) \<Rightarrow> Some (0, x, colon)
      | None \<Rightarrow> map_option (\<lambda>(i, x, colon). (Suc i, x, colon)) (bold_search cs))"

text \<open>\<^verbatim>\<open>boldRegex.exec(text)\<close> with the regex's \<^verbatim>\<open>lastIndex\<close> at \<open>pos\<close>.\<close>

definition bold_exec :: "jsstring \<Rightarrow> nat \<Rightarrow> (nat \<times> jsstring \<times> jsstring) option" where
  "bold_exec text pos =
     map_option (\<lambda>(i, x, colon). (pos + i, x, colon)) (bold_search (drop pos text))"

text \<open>
  Lines 121-125 and 144-148. A string result is pushed as one part. An array result is
  spread into the arguments of one call, \<^verbatim>\<open>parts.push(...citationParts)\<close>. How many
  arguments a call takes is the engine's matter and no part of the source, so it is the
  parameter \<open>limit\<close> of the model: the spread of a longer array raises the
  \<^verbatim>\<open>RangeError\<close>.
\<close>

definition push_rendered :: "nat \<Rightarrow> part list \<Rightarrow> rendered \<Rightarrow> error + part list" where
  "push_rendered limit parts r =
     (case r of
        Inr ps \<Rightarrow> if length ps > limit then Inl RangeError else Inr (parts @ ps)
      | Inl s \<Rightarrow> Inr (parts @ [Str s]))"

lemma starts_withD: "starts_with p s \<Longrightarrow> s = p @ drop (length p) s"
  unfolding starts_with_def by (metis append_take_drop_id)

lemma starts_with_append [simp]: "starts_with p (p @ r)"
  by (simp add: starts_with_def)

lemma length_stars [simp]: "length stars = 2"
  by (simp add: stars_def)

lemma starts_with_stars_drop: "starts_with stars s \<Longrightarrow> s = stars @ drop 2 s"
  using starts_withD [of stars s] by (simp only: length_stars)

lemma lazy_until_stars_Some:
  "lazy_until_stars s = Some (x, r) \<Longrightarrow> s = x @ stars @ r \<and> (\<forall>c\<in>set x. is_dot c)"
proof (induction s arbitrary: x)
  case Nil
  then show ?case by simp
next
  case (Cons c cs)
  show ?case
  proof (cases "starts_with stars (c # cs)")
    case True
    with Cons.prems have x: "x = []" and r: "r = drop 2 (c # cs)" by auto
    have eq: "c # cs = [] @ stars @ drop 2 (c # cs)"
      using starts_with_stars_drop [OF True] by (simp only: append_Nil)
    have "\<forall>a\<in>set ([]::jsstring). is_dot a" by simp
    with eq show ?thesis unfolding x r by (rule conjI)
  next
    case False
    with Cons.prems obtain y where dot: "is_dot c"
      and y: "lazy_until_stars cs = Some (y, r)" and x: "x = c # y"
      by (auto split: if_splits)
    from Cons.IH [OF y] x dot show ?thesis by simp
  qed
qed

lemma bold_at_Some:
  "bold_at s = Some (x, colon) \<Longrightarrow>
     \<exists>r. s = stars @ x @ stars @ colon @ r \<and> (\<forall>c\<in>set x. is_dot c) \<and>
         (colon = [] \<or> colon = [COLON])"
proof -
  assume a: "bold_at s = Some (x, colon)"
  then have st: "starts_with stars s" by (auto simp: bold_at_def split: if_splits)
  with a obtain r where l: "lazy_until_stars (drop 2 s) = Some (x, r)"
    and colon: "colon = (if starts_with [COLON] r then [COLON] else [])"
    by (auto simp: bold_at_def split: option.splits)
  from st have s: "s = stars @ drop 2 s" by (rule starts_with_stars_drop)
  from lazy_until_stars_Some [OF l] have d: "drop 2 s = x @ stars @ r"
    and dots: "\<forall>c\<in>set x. is_dot c" by auto
  have "\<exists>r'. r = colon @ r'"
  proof (cases "starts_with [COLON] r")
    case True
    from starts_withD [OF True] colon True show ?thesis by auto
  next
    case False
    with colon show ?thesis by simp
  qed
  then obtain r' where "r = colon @ r'" ..
  with s d have "s = stars @ x @ stars @ colon @ r'" by simp
  with dots colon show ?thesis by auto
qed

lemma bold_search_bound:
  "bold_search s = Some (i, x, colon) \<Longrightarrow> i + (4 + length x + length colon) \<le> length s"
proof (induction s arbitrary: i)
  case Nil
  then show ?case by simp
next
  case (Cons c cs)
  show ?case
  proof (cases "bold_at (c # cs)")
    case None
    with Cons.prems obtain j where j: "bold_search cs = Some (j, x, colon)" "i = Suc j"
      by auto
    from Cons.IH [OF j(1)] j(2) show ?thesis by simp
  next
    case (Some e)
    with Cons.prems have i: "i = 0" and e: "e = (x, colon)" by auto
    from bold_at_Some [of "c # cs" x colon] Some e
    obtain r where "c # cs = stars @ x @ stars @ colon @ r" by blast
    then have "length (c # cs) = length (stars @ x @ stars @ colon @ r)" by simp
    with i show ?thesis by (simp add: stars_def)
  qed
qed

lemma bold_exec_bound:
  "bold_exec t pos = Some (index, x, colon) \<Longrightarrow>
     pos \<le> index \<and> index + (4 + length x + length colon) \<le> length t"
proof -
  assume "bold_exec t pos = Some (index, x, colon)"
  then obtain i where i: "bold_search (drop pos t) = Some (i, x, colon)" "index = pos + i"
    by (auto simp: bold_exec_def)
  from bold_search_bound [OF i(1)] i(2) show ?thesis by simp
qed

text \<open>
  The \<^verbatim>\<open>while\<close> loop of \<^verbatim>\<open>processBoldAndCitations\<close> (lines 116-138); as in
  \<open>citation_loop\<close>, one position stands for the local \<^verbatim>\<open>lastIndex\<close> and the regex's.
  \<^verbatim>\<open>match[0].length\<close> is the two delimiters, the bold text and the colon. An error
  of the push ends the loop.
\<close>

function bold_loop :: "nat \<Rightarrow> jsstring \<Rightarrow> nat \<Rightarrow> part list \<Rightarrow> error + nat \<times> part list" where
  "bold_loop limit text lastIndex parts =
     (case bold_exec text lastIndex of
        None \<Rightarrow> Inr (lastIndex, parts)
      | Some (index, boldText, colon) \<Rightarrow>
          (case (if index > lastIndex
                 then push_rendered limit parts
                        (processCitations (slice text lastIndex index) (length parts))
                 else Inr parts) of
             Inl e \<Rightarrow> Inl e
           | Inr parts1 \<Rightarrow>
               bold_loop limit text (index + (4 + length boldText + length colon))
                 (parts1 @ [Strong (length parts1) boldText colon])))"
  by pat_completeness auto
termination
  by (relation "measure (\<lambda>(limit, t, lastIndex, parts). length t - lastIndex)")
     (auto dest!: bold_exec_bound)

declare bold_loop.simps [simp del]

text \<open>Lines 108-152.\<close>

definition processBoldAndCitations :: "nat \<Rightarrow> jsstring \<Rightarrow> error + rendered" where
  "processBoldAndCitations limit text =
     (case bold_loop limit text 0 [] of
        Inl e \<Rightarrow> Inl e
      | Inr (lastIndex, parts0) \<Rightarrow>
          (case (if lastIndex < length text
                 then push_rendered limit parts0
                        (processCitations (slice text lastIndex (length text)) (length parts0))
                 else Inr parts0) of
             Inl e \<Rightarrow> Inl e
           | Inr parts \<Rightarrow> Inr (if length parts > 0 then Inr parts else Inl text)))"

section \<open>parseMarkdown\<close>

text \<open>
  A branch of the loop body first has the tokenizer make the content of its element and
  then pushes the element: \<open>f\<close> gives the state after the push. An error of the
  tokenizer goes up and nothing is pushed.
\<close>

definition with_content ::
  "error + rendered \<Rightarrow> (rendered \<Rightarrow> nat \<times> block list) \<Rightarrow> error + nat \<times> block list" where
  "with_content r f = (case r of Inl e \<Rightarrow> Inl e | Inr content \<Rightarrow> Inr (f content))"

text \<open>
  The body of \<^verbatim>\<open>lines.forEach((line, index) => ...)\<close>, lines 21-102. Its state is
  the counter \<^verbatim>\<open>nestedCounter\<close> and the array \<^verbatim>\<open>elements\<close>.
\<close>

definition forEach_body ::
  "nat \<Rightarrow> nat \<times> block list \<Rightarrow> jsstring \<times> nat \<Rightarrow> error + nat \<times> block list" where
  "forEach_body limit st li =
     (let (nestedCounter, elements) = st; (line, index) = li;
          trimmedLine = trim line
      in if trimmedLine = [] then
           Inr (nestedCounter, elements @ [Spacer index])
         else if rx_bullet_header trimmedLine then
           with_content (processBoldAndCitations limit (strip_bullet trimmedLine))
             (\<lambda>content. (0, elements @ [BulletHeader index content]))
         else if rx_nested trimmedLine then
           with_content (processBoldAndCitations limit (strip_nested trimmedLine))
             (\<lambda>content. (nestedCounter + 1,
                elements @ [NestedNumberedItem index (nestedCounter + 1) content]))
         else if rx_bullet trimmedLine then
           with_content (processBoldAndCitations limit (strip_bullet trimmedLine))
             (\<lambda>content. (nestedCounter, elements @ [BulletItem index content]))
         else if rx_plus trimmedLine then
           with_content (processBoldAndCitations limit (strip_plus trimmedLine))
             (\<lambda>content. (nestedCounter, elements @ [PlusBulletItem index content]))
         else if rx_numbered trimmedLine then
           with_content (processBoldAndCitations limit (strip_number trimmedLine))
             (\<lambda>content. (nestedCounter,
                elements @ [NumberedItem index (number_label trimmedLine) content]))
         else if rx_header trimmedLine then
           with_content (processBoldAndCitations limit trimmedLine)
             (\<lambda>content. (nestedCounter, elements @ [Header index content]))
         else
           with_content (processBoldAndCitations limit trimmedLine)
             (\<lambda>content. (nestedCounter, elements @ [Paragraph index content])))"

text \<open>
  \<^verbatim>\<open>forEach\<close> runs the body on each line with its index, in order; an error of the
  body ends it.
\<close>

fun forEach ::
  "nat \<Rightarrow> nat \<times> block list \<Rightarrow> (jsstring \<times> nat) list \<Rightarrow> error + nat \<times> block list" where
  "forEach limit st [] = Inr st"
| "forEach limit st (li # lis) =
     (case forEach_body limit st li of
        Inl e \<Rightarrow> Inl e
      | Inr st' \<Rightarrow> forEach limit st' lis)"

text \<open>The loop over all lines, from \<^verbatim>\<open>nestedCounter = 0\<close> and no elements.\<close>

definition forEach_lines :: "nat \<Rightarrow> jsstring list \<Rightarrow> error + nat \<times> block list" where
  "forEach_lines limit lines = forEach limit (0, []) (zip lines [0..<length lines])"

text \<open>
  Lines 13-105. \<^verbatim>\<open>if (!text) return text\<close> hands the empty string back (\<open>Inl\<close>);
  any other string gives the \<^verbatim>\<open><div>\<close> of the elements (\<open>Inr\<close>), unless an error was
  raised on the way.
\<close>

definition parseMarkdown :: "nat \<Rightarrow> jsstring \<Rightarrow> error + (jsstring + block list)" where
  "parseMarkdown limit text =
     (if text = [] then Inr (Inl text)
      else (case forEach_lines limit (split_lf text) of
              Inl e \<Rightarrow> Inl e
            | Inr (nestedCounter, elements) \<Rightarrow> Inr (Inr elements)))"

section \<open>The document as the specification sees it\<close>

text \<open>
  The specification speaks of a Document of Blocks, each with a sequence of InlineSpans:
  \<open>Text\<close>, \<open>Bold\<close> (with the colon folded into its string) and \<open>Citation\<close> (with the
  number read from the digits). These are views of what the code returns.
\<close>

datatype InlineSpan = Text jsstring | Bold jsstring | Citation nat

text \<open>The number a run of decimal digits denotes.\<close>

definition decimal :: "jsstring \<Rightarrow> nat" where
  "decimal ds = foldl (\<lambda>n d. 10 * n + (d - 0x30)) 0 ds"

fun span_of :: "part \<Rightarrow> InlineSpan" where
  "span_of (Str s) = Text s"
| "span_of (Strong k boldText colon) = Bold (boldText @ colon)"
| "span_of (CitationSpan k n ds) = Citation (decimal ds)"

text \<open>A string result is a single plain span.\<close>

definition spans_of :: "rendered \<Rightarrow> InlineSpan list" where
  "spans_of r = (case r of Inl s \<Rightarrow> [Text s] | Inr ps \<Rightarrow> map span_of ps)"

text \<open>The parts of a result, a string being one string part.\<close>

definition parts_of :: "rendered \<Rightarrow> part list" where
  "parts_of r = (case r of Inl s \<Rightarrow> [Str s] | Inr ps \<Rightarrow> ps)"

fun block_spans :: "block \<Rightarrow> InlineSpan list" where
  "block_spans (Spacer i) = []"
| "block_spans (BulletHeader i r) = spans_of r"
| "block_spans (NestedNumberedItem i n r) = spans_of r"
| "block_spans (BulletItem i r) = spans_of r"
| "block_spans (PlusBulletItem i r) = spans_of r"
| "block_spans (NumberedItem i l r) = spans_of r"
| "block_spans (Header i r) = spans_of r"
| "block_spans (Paragraph i r) = spans_of r"

text \<open>
  The blocks that \<^verbatim>\<open>parseMarkdown\<close> hands to the renderer: the elements of the
  \<^verbatim>\<open><div>\<close>, none when the empty string came back, and no document at all when an
  error was raised.
\<close>

definition document :: "error + (jsstring + block list) \<Rightarrow> block list option" where
  "document r =
     (case r of
        Inl e \<Rightarrow> None
      | Inr (Inl s) \<Rightarrow> Some []
      | Inr (Inr blocks) \<Rightarrow> Some blocks)"

text \<open>
  The characters of the input a part stands for: a string for itself, a bold element for
  its text between the delimiters with its colon, a citation for its bracketed digits.
\<close>

fun source_of :: "part \<Rightarrow> jsstring" where
  "source_of (Str s) = s"
| "source_of (Strong k boldText colon) = stars @ boldText @ stars @ colon"
| "source_of (CitationSpan k n ds) = LBRACKET # ds @ [RBRACKET]"

fun is_Strong :: "part \<Rightarrow> bool" where
  "is_Strong (Strong k boldText colon) = True"
| "is_Strong p = False"

text \<open>A citation element carries a non-empty run of digits; other parts are unconstrained.\<close>

fun citation_digits :: "part \<Rightarrow> bool" where
  "citation_digits (CitationSpan k n ds) = (ds \<noteq> [] \<and> list_all is_digit ds)"
| "citation_digits p = True"

text \<open>
  A bold element stands for a closed pair of delimiters: its text has no line terminator
  and its colon is a colon or nothing; other parts are unconstrained.
\<close>

fun closed_bold :: "part \<Rightarrow> bool" where
  "closed_bold (Strong k boldText colon) =
     (list_all is_dot boldText \<and> (colon = [] \<or> colon = [COLON]))"
| "closed_bold p = True"

text \<open>
  A citation marker, as the specification words it: an open bracket, one or more digits,
  a close bracket; and a string that has one somewhere.
\<close>

definition citation_marker_here :: "jsstring \<Rightarrow> bool" where
  "citation_marker_here =
     lit_then [LBRACKET] (plus_then is_digit (lit_then [RBRACKET] accept))"

fun has_citation_marker :: "jsstring \<Rightarrow> bool" where
  "has_citation_marker [] = False"
| "has_citation_marker (c # cs) = (citation_marker_here (c # cs) \<or> has_citation_marker cs)"

text \<open>
  A closed bold span: the delimiter, a run without line terminators, the delimiter; and
  a string that has one somewhere.
\<close>

definition bold_span_here :: "jsstring \<Rightarrow> bool" where
  "bold_span_here = lit_then stars (star_then is_dot (lit_then stars accept))"

fun has_bold_span :: "jsstring \<Rightarrow> bool" where
  "has_bold_span [] = False"
| "has_bold_span (c # cs) = (bold_span_here (c # cs) \<or> has_bold_span cs)"

text \<open>
  The NumberingRegister of the specification after a block: 0 after a BulletHeader, one
  more after a NestedNumberedItem, unchanged after any other block.
\<close>

fun register_after :: "nat \<Rightarrow> block \<Rightarrow> nat" where
  "register_after n (BulletHeader i r) = 0"
| "register_after n (NestedNumberedItem i m r) = n + 1"
| "register_after n b = n"

text \<open>
  The display numbers of a sequence of blocks are those of the NumberingRegister started
  at \<open>n\<close>: each NestedNumberedItem shows one more than the register holds after the
  blocks before it.
\<close>

fun register_numbers :: "nat \<Rightarrow> block list \<Rightarrow> bool" where
  "register_numbers n [] = True"
| "register_numbers n (b # bs) =
     ((case b of NestedNumberedItem i m r \<Rightarrow> m = n + 1 | _ \<Rightarrow> True) \<and>
      register_numbers (register_after n b) bs)"

text \<open>
  The lines of a string as claim C1 words them, split at the line terminators: a line
  feed, a carriage return (with the line feed after it, if there is one), U+2028 or
  U+2029 ends a line.
\<close>

fun terminator_lines :: "jsstring \<Rightarrow> jsstring list" where
  "terminator_lines [] = [[]]"
| "terminator_lines [c] = (if is_line_terminator c then [[], []] else [[c]])"
| "terminator_lines (c # d # cs) =
     (if c = 0x0D \<and> d = 0x0A then [] # terminator_lines cs
      else if is_line_terminator c then [] # terminator_lines (d # cs)
      else (c # hd (terminator_lines (d # cs))) # tl (terminator_lines (d # cs)))"

text \<open>The string of \<open>n\<close> citation markers \<^verbatim>\<open>"[1]".repeat(n)\<close>.\<close>

definition markers :: "nat \<Rightarrow> jsstring" where
  "markers n = concat (replicate n [LBRACKET, 0x31, RBRACKET])"

section \<open>What the matchers accept\<close>

lemma star_then_iff:
  "star_then P K s \<longleftrightarrow> (\<exists>x r. s = x @ r \<and> (\<forall>c\<in>set x. P c) \<and> K r)"
proof
  show "star_then P K s \<Longrightarrow> \<exists>x r. s = x @ r \<and> (\<forall>c\<in>set x. P c) \<and> K r"
  proof (induction s)
    case Nil
    then show ?case by simp
  next
    case (Cons c cs)
    from Cons.prems consider "P c" "star_then P K cs" | "K (c # cs)" by auto
    then show ?case
    proof cases
      case 1
      from Cons.IH [OF 1(2)] obtain x r where "cs = x @ r" "\<forall>c\<in>set x. P c" "K r"
        by blast
      with 1(1) have "c # cs = (c # x) @ r \<and> (\<forall>a\<in>set (c # x). P a) \<and> K r" by simp
      then show ?thesis by blast
    next
      case 2
      then have "c # cs = [] @ (c # cs) \<and> (\<forall>a\<in>set []. P a) \<and> K (c # cs)" by simp
      then show ?thesis by blast
    qed
  qed
next
  assume "\<exists>x r. s = x @ r \<and> (\<forall>c\<in>set x. P c) \<and> K r"
  then obtain x r where s: "s = x @ r" and x: "\<forall>c\<in>set x. P c" and r: "K r" by blast
  have here: "star_then P K r" using r by (cases r) simp_all
  from x have "star_then P K (x @ r)"
    by (induction x) (simp_all add: here)
  with s show "star_then P K s" by simp
qed

lemma lit_then_append [simp]: "lit_then p K (p @ r) = K r"
  by (simp add: lit_then_def)

lemma lit_then_iff: "lit_then p K s \<longleftrightarrow> (\<exists>r. s = p @ r \<and> K r)"
proof
  assume "lit_then p K s"
  then have "s = p @ drop (length p) s" and "K (drop (length p) s)"
    by (auto simp: lit_then_def dest: starts_withD)
  then show "\<exists>r. s = p @ r \<and> K r" by blast
next
  assume "\<exists>r. s = p @ r \<and> K r"
  then show "lit_then p K s" by auto
qed

lemma plus_then_iff:
  "plus_then P K s \<longleftrightarrow> (\<exists>x r. s = x @ r \<and> x \<noteq> [] \<and> (\<forall>c\<in>set x. P c) \<and> K r)"
proof
  assume "plus_then P K s"
  then obtain c cs where s: "s = c # cs" and c: "P c" and st: "star_then P K cs"
    by (cases s) (auto simp: plus_then_def)
  from st obtain x r where "cs = x @ r" "\<forall>c\<in>set x. P c" "K r"
    unfolding star_then_iff by blast
  with s c have "s = (c # x) @ r \<and> c # x \<noteq> [] \<and> (\<forall>a\<in>set (c # x). P a) \<and> K r" by simp
  then show "\<exists>x r. s = x @ r \<and> x \<noteq> [] \<and> (\<forall>c\<in>set x. P c) \<and> K r" by blast
next
  assume "\<exists>x r. s = x @ r \<and> x \<noteq> [] \<and> (\<forall>c\<in>set x. P c) \<and> K r"
  then obtain x r where s: "s = x @ r" and ne: "x \<noteq> []" and x: "\<forall>c\<in>set x. P c"
    and r: "K r" by blast
  from ne obtain c y where xc: "x = c # y" by (cases x) auto
  with x r have "star_then P K (y @ r)" unfolding star_then_iff by auto
  with s xc x show "plus_then P K s" by (simp add: plus_then_def)
qed

lemma one_then_Cons [simp]: "one_then P K (c # cs) = (P c \<and> K cs)"
  by (simp add: one_then_def)

lemma one_then_Nil [simp]: "one_then P K [] = False"
  by (simp add: one_then_def)

lemma accept [simp]: "accept s"
  by (simp add: accept_def)

text \<open>No bullet marker, star, colon, bracket, digit, plus sign or dot is white space.\<close>

lemma bullet_not_whitespace: "is_bullet c \<Longrightarrow> \<not> is_whitespace c"
  by (auto simp: is_bullet_def is_whitespace_def is_line_terminator_def
      STAR_def BULLET_def DASH_def)

lemma STAR_not_whitespace [simp]: "\<not> is_whitespace STAR"
  by (simp add: bullet_not_whitespace is_bullet_def)

lemma STAR_is_dot [simp]: "is_dot STAR"
  by (simp add: is_dot_def is_line_terminator_def STAR_def)

lemma citation_marker_here_iff:
  "citation_marker_here s \<longleftrightarrow>
     (\<exists>ds post. s = LBRACKET # ds @ RBRACKET # post \<and> ds \<noteq> [] \<and> (\<forall>d\<in>set ds. is_digit d))"
  unfolding citation_marker_here_def lit_then_iff plus_then_iff
  by (auto simp: accept_def)

lemma has_citation_marker_iff:
  "has_citation_marker s \<longleftrightarrow>
     (\<exists>pre ds post. s = pre @ LBRACKET # ds @ RBRACKET # post \<and> ds \<noteq> [] \<and>
        (\<forall>d\<in>set ds. is_digit d))"
proof (induction s)
  case Nil
  then show ?case by simp
next
  case (Cons c cs)
  show ?case
  proof
    assume "has_citation_marker (c # cs)"
    then consider "citation_marker_here (c # cs)" | "has_citation_marker cs" by auto
    then show "\<exists>pre ds post. c # cs = pre @ LBRACKET # ds @ RBRACKET # post \<and> ds \<noteq> [] \<and>
        (\<forall>d\<in>set ds. is_digit d)"
    proof cases
      case 1
      then obtain ds post where "c # cs = [] @ LBRACKET # ds @ RBRACKET # post"
        and "ds \<noteq> []" and "\<forall>d\<in>set ds. is_digit d"
        unfolding citation_marker_here_iff by auto
      then show ?thesis by blast
    next
      case 2
      with Cons.IH obtain pre ds post where "cs = pre @ LBRACKET # ds @ RBRACKET # post"
        and d: "ds \<noteq> []" "\<forall>d\<in>set ds. is_digit d" by blast
      then have "c # cs = (c # pre) @ LBRACKET # ds @ RBRACKET # post" by simp
      with d show ?thesis by blast
    qed
  next
    assume "\<exists>pre ds post. c # cs = pre @ LBRACKET # ds @ RBRACKET # post \<and> ds \<noteq> [] \<and>
        (\<forall>d\<in>set ds. is_digit d)"
    then obtain pre ds post where eq: "c # cs = pre @ LBRACKET # ds @ RBRACKET # post"
      and d: "ds \<noteq> []" "\<forall>d\<in>set ds. is_digit d" by blast
    show "has_citation_marker (c # cs)"
    proof (cases pre)
      case Nil
      with eq d have "citation_marker_here (c # cs)"
        unfolding citation_marker_here_iff by auto
      then show ?thesis by simp
    next
      case (Cons a pre')
      with eq have "cs = pre' @ LBRACKET # ds @ RBRACKET # post" by simp
      with d Cons.IH have "has_citation_marker cs" by blast
      then show ?thesis by simp
    qed
  qed
qed

lemma citation_search_marker:
  "citation_search s = Some (i, ds) \<Longrightarrow> has_citation_marker s"
proof (induction s arbitrary: i)
  case Nil
  then show ?case by simp
next
  case (Cons c cs)
  show ?case
  proof (cases "citation_at (c # cs)")
    case None
    with Cons.prems obtain j where "citation_search cs = Some (j, ds)" by auto
    from Cons.IH [OF this] show ?thesis by simp
  next
    case (Some e)
    from citation_at_Some [OF Some] have "citation_marker_here (c # cs)"
      unfolding citation_marker_here_iff by blast
    then show ?thesis by simp
  qed
qed

lemma citation_search_None: "\<not> has_citation_marker s \<Longrightarrow> citation_search s = None"
  using citation_search_marker [of s] by (cases "citation_search s") auto

lemma processCitations_no_match:
  assumes "citation_search t = None"
  shows "processCitations t k = Inl t"
proof -
  from assms have "citation_exec t 0 = None" by (simp add: citation_exec_def)
  then have "citation_loop t k 0 [] = (0, [])" by (simp add: citation_loop.simps)
  then show ?thesis by (simp add: processCitations_def)
qed

section \<open>The citation loop\<close>

lemma citation_search_drop:
  "citation_search s = Some (i, ds) \<Longrightarrow>
     \<exists>post. drop i s = LBRACKET # ds @ RBRACKET # post \<and> ds \<noteq> [] \<and> (\<forall>d\<in>set ds. is_digit d)"
proof (induction s arbitrary: i)
  case Nil
  then show ?case by simp
next
  case (Cons c cs)
  show ?case
  proof (cases "citation_at (c # cs)")
    case None
    with Cons.prems obtain j where j: "citation_search cs = Some (j, ds)" "i = Suc j"
      by auto
    from Cons.IH [OF j(1)] j(2) show ?thesis by simp
  next
    case (Some e)
    with Cons.prems have i: "i = 0" and e: "e = ds" by auto
    from citation_at_Some [OF Some] e i show ?thesis by simp
  qed
qed

lemma citation_exec_drop:
  assumes "citation_exec t pos = Some (index, ds)"
  shows "\<exists>post. drop index t = LBRACKET # ds @ RBRACKET # post \<and> ds \<noteq> [] \<and>
           (\<forall>d\<in>set ds. is_digit d)"
proof -
  from assms obtain i where i: "citation_search (drop pos t) = Some (i, ds)" "index = pos + i"
    by (auto simp: citation_exec_def)
  from citation_search_drop [OF i(1)] i(2) show ?thesis by (simp add: add.commute)
qed

lemma take_step:
  assumes "pos \<le> index" and "drop index t = m @ post"
  shows "take (index + length m) t = take pos t @ slice t pos index @ m"
proof -
  have "take (index + length m) t = take index t @ take (length m) (drop index t)"
    by (simp add: take_add)
  also have "take (length m) (drop index t) = m" using assms(2) by simp
  also have "take index t = take pos t @ slice t pos index"
    using assms(1) unfolding slice_def
    by (metis le_add_diff_inverse take_add)
  finally show ?thesis by simp
qed

lemma citation_loop_inv:
  "citation_loop t k pos parts = (pos', parts') \<Longrightarrow> pos \<le> length t \<Longrightarrow>
   concat (map source_of parts) = take pos t \<Longrightarrow>
   \<forall>p\<in>set parts. citation_digits p \<and> \<not> is_Strong p \<Longrightarrow>
   concat (map source_of parts') = take pos' t \<and> pos' \<le> length t \<and>
   (\<forall>p\<in>set parts'. citation_digits p \<and> \<not> is_Strong p)"
proof (induction t k pos parts rule: citation_loop.induct)
  case (1 t k pos parts)
  show ?case
  proof (cases "citation_exec t pos")
    case None
    with "1.prems" show ?thesis by (simp add: citation_loop.simps)
  next
    case (Some e)
    obtain index ds where e: "e = (index, ds)" by (cases e)
    define parts1 where "parts1 = (if index > pos then parts @ [Str (slice t pos index)] else parts)"
    define parts2 where "parts2 = parts1 @ [CitationSpan k (length parts1) ds]"
    from Some e have ex: "citation_exec t pos = Some (index, ds)" by simp
    from citation_exec_bound [OF ex] have b: "pos \<le> index" "index + (length ds + 2) \<le> length t"
      by auto
    from citation_exec_drop [OF ex] obtain post where
      d: "drop index t = (LBRACKET # ds @ [RBRACKET]) @ post"
      and ds: "ds \<noteq> []" "\<forall>d\<in>set ds. is_digit d" by auto
    have loop: "citation_loop t k (index + (length ds + 2)) parts2 = (pos', parts')"
      using "1.prems"(1) ex
      by (subst (asm) citation_loop.simps) (simp add: parts1_def parts2_def Let_def)
    have s1: "concat (map source_of parts1) = take pos t @ slice t pos index"
      using "1.prems"(3) b(1) by (auto simp: parts1_def slice_def)
    have s2: "concat (map source_of parts2) = take (index + (length ds + 2)) t"
      using take_step [OF b(1) d] s1 by (simp add: parts2_def)
    have p2: "\<forall>p\<in>set parts2. citation_digits p \<and> \<not> is_Strong p"
      using "1.prems"(4) ds by (auto simp: parts1_def parts2_def list_all_iff)
    from "1.IH" [OF ex refl parts1_def parts2_def loop b(2) s2 p2]
    show ?thesis .
  qed
qed

lemma processCitations_parts:
  "concat (map source_of (parts_of (processCitations t k))) = t \<and>
   (\<forall>p\<in>set (parts_of (processCitations t k)). citation_digits p \<and> \<not> is_Strong p)"
proof -
  obtain pos' parts' where l: "citation_loop t k 0 [] = (pos', parts')"
    by (cases "citation_loop t k 0 []")
  from citation_loop_inv [OF l] have inv: "concat (map source_of parts') = take pos' t"
    "pos' \<le> length t" "\<forall>p\<in>set parts'. citation_digits p \<and> \<not> is_Strong p"
    by auto
  define parts where "parts = (if pos' < length t
                   then parts' @ [Str (slice t pos' (length t))] else parts')"
  have r: "processCitations t k = (if length parts > 1 then Inr parts else Inl t)"
    by (simp add: processCitations_def l parts_def)
  have "concat (map source_of parts) = t"
    using inv(1,2) by (auto simp: parts_def slice_def)
  moreover have "\<forall>p\<in>set parts. citation_digits p \<and> \<not> is_Strong p"
    using inv(3) by (auto simp: parts_def)
  ultimately show ?thesis
    by (auto simp: r parts_of_def)
qed

lemma citation_loop_length:
  "citation_loop t k pos parts = (pos', parts') \<Longrightarrow> length parts \<le> pos \<Longrightarrow>
   length parts' \<le> pos'"
proof (induction t k pos parts rule: citation_loop.induct)
  case (1 t k pos parts)
  show ?case
  proof (cases "citation_exec t pos")
    case None
    with "1.prems" show ?thesis by (simp add: citation_loop.simps)
  next
    case (Some e)
    obtain index ds where e: "e = (index, ds)" by (cases e)
    define parts1 where "parts1 = (if index > pos then parts @ [Str (slice t pos index)] else parts)"
    define parts2 where "parts2 = parts1 @ [CitationSpan k (length parts1) ds]"
    from Some e have ex: "citation_exec t pos = Some (index, ds)" by simp
    from citation_exec_bound [OF ex] have b: "pos \<le> index" by simp
    have loop: "citation_loop t k (index + (length ds + 2)) parts2 = (pos', parts')"
      using "1.prems"(1) ex
      by (subst (asm) citation_loop.simps) (simp add: parts1_def parts2_def Let_def)
    have "length parts1 \<le> index" using "1.prems"(2) b by (auto simp: parts1_def)
    then have l2: "length parts2 \<le> index + (length ds + 2)" by (simp add: parts2_def)
    from "1.IH" [OF ex refl parts1_def parts2_def loop l2] show ?thesis .
  qed
qed

text \<open>An array of parts is no longer than the fragment it was made from.\<close>

lemma processCitations_length:
  assumes "processCitations t k = Inr ps"
  shows "length ps \<le> length t"
proof -
  obtain pos' parts' where l: "citation_loop t k 0 [] = (pos', parts')"
    by (cases "citation_loop t k 0 []")
  from citation_loop_length [OF l] have n: "length parts' \<le> pos'" by simp
  from citation_loop_inv [OF l] have b: "pos' \<le> length t" by simp
  from assms l n b show ?thesis
    by (auto simp: processCitations_def split: if_splits)
qed

lemma processCitations_Inr: "processCitations t k = Inr ps \<Longrightarrow> 1 < length ps"
  by (auto simp: processCitations_def Let_def split: prod.splits if_splits)

lemma parts_of_processCitations_nonempty: "parts_of (processCitations t k) \<noteq> []"
  using processCitations_Inr [of t k]
  by (cases "processCitations t k") (auto simp: parts_of_def)

section \<open>The bold loop\<close>

lemma push_rendered_Inr:
  "push_rendered limit parts r = Inr parts' \<Longrightarrow> parts' = parts @ parts_of r"
  by (auto simp: push_rendered_def parts_of_def split: sum.splits if_splits)

text \<open>A spread within the limit does not raise.\<close>

lemma push_rendered_returns:
  assumes "\<And>ps. r = Inr ps \<Longrightarrow> length ps \<le> limit"
  shows "push_rendered limit parts r = Inr (parts @ parts_of r)"
  using assms by (cases r) (auto simp: push_rendered_def parts_of_def)

lemma push_processCitations_returns:
  assumes "length t \<le> limit"
  shows "push_rendered limit parts (processCitations t k) =
           Inr (parts @ parts_of (processCitations t k))"
proof (rule push_rendered_returns)
  fix ps assume "processCitations t k = Inr ps"
  from processCitations_length [OF this] assms show "length ps \<le> limit" by simp
qed

lemma bold_span_here_iff:
  "bold_span_here s \<longleftrightarrow> (\<exists>x post. s = stars @ x @ stars @ post \<and> (\<forall>c\<in>set x. is_dot c))"
  unfolding bold_span_here_def lit_then_iff star_then_iff
  by (auto simp: accept_def)

lemma has_bold_span_iff:
  "has_bold_span s \<longleftrightarrow>
     (\<exists>pre x post. s = pre @ stars @ x @ stars @ post \<and> (\<forall>c\<in>set x. is_dot c))"
proof (induction s)
  case Nil
  then show ?case by (simp add: stars_def)
next
  case (Cons c cs)
  show ?case
  proof
    assume "has_bold_span (c # cs)"
    then consider "bold_span_here (c # cs)" | "has_bold_span cs" by auto
    then show "\<exists>pre x post. c # cs = pre @ stars @ x @ stars @ post \<and> (\<forall>c\<in>set x. is_dot c)"
    proof cases
      case 1
      then obtain x post where "c # cs = [] @ stars @ x @ stars @ post"
        and "\<forall>c\<in>set x. is_dot c"
        unfolding bold_span_here_iff by auto
      then show ?thesis by blast
    next
      case 2
      with Cons.IH obtain pre x post where "cs = pre @ stars @ x @ stars @ post"
        and d: "\<forall>c\<in>set x. is_dot c" by blast
      then have "c # cs = (c # pre) @ stars @ x @ stars @ post" by simp
      with d show ?thesis by blast
    qed
  next
    assume "\<exists>pre x post. c # cs = pre @ stars @ x @ stars @ post \<and> (\<forall>c\<in>set x. is_dot c)"
    then obtain pre x post where eq: "c # cs = pre @ stars @ x @ stars @ post"
      and d: "\<forall>c\<in>set x. is_dot c" by blast
    show "has_bold_span (c # cs)"
    proof (cases pre)
      case Nil
      with eq d have "bold_span_here (c # cs)"
        unfolding bold_span_here_iff by auto
      then show ?thesis by simp
    next
      case (Cons a pre')
      with eq have "cs = pre' @ stars @ x @ stars @ post" by simp
      with d Cons.IH have "has_bold_span cs" by blast
      then show ?thesis by simp
    qed
  qed
qed

lemma bold_search_drop:
  "bold_search s = Some (i, x, colon) \<Longrightarrow>
     \<exists>post. drop i s = (stars @ x @ stars @ colon) @ post \<and> (\<forall>c\<in>set x. is_dot c) \<and>
       (colon = [] \<or> colon = [COLON])"
proof (induction s arbitrary: i)
  case Nil
  then show ?case by simp
next
  case (Cons c cs)
  show ?case
  proof (cases "bold_at (c # cs)")
    case None
    with Cons.prems obtain j where j: "bold_search cs = Some (j, x, colon)" "i = Suc j"
      by auto
    from Cons.IH [OF j(1)] j(2) show ?thesis by simp
  next
    case (Some e)
    with Cons.prems have i: "i = 0" and e: "e = (x, colon)" by auto
    from bold_at_Some [of "c # cs" x colon] Some e i show ?thesis by simp
  qed
qed

lemma bold_search_span: "bold_search s = Some (i, x, colon) \<Longrightarrow> has_bold_span s"
proof -
  assume a: "bold_search s = Some (i, x, colon)"
  from bold_search_drop [OF a] obtain post where
    d: "drop i s = stars @ x @ stars @ colon @ post" and x: "\<forall>c\<in>set x. is_dot c" by auto
  have "s = take i s @ stars @ x @ stars @ (colon @ post)"
    using d append_take_drop_id [of i s] by simp
  with x show ?thesis unfolding has_bold_span_iff by blast
qed

lemma bold_search_None: "\<not> has_bold_span s \<Longrightarrow> bold_search s = None"
  using bold_search_span [of s] by (cases "bold_search s") auto

lemma bold_exec_drop:
  assumes "bold_exec t pos = Some (index, x, colon)"
  shows "\<exists>post. drop index t = (stars @ x @ stars @ colon) @ post \<and> (\<forall>c\<in>set x. is_dot c) \<and>
       (colon = [] \<or> colon = [COLON])"
proof -
  from assms obtain i where i: "bold_search (drop pos t) = Some (i, x, colon)" "index = pos + i"
    by (auto simp: bold_exec_def)
  from bold_search_drop [OF i(1)] i(2) show ?thesis by (simp add: add.commute)
qed

lemma processCitations_closed_bold:
  "p \<in> set (parts_of (processCitations t k)) \<Longrightarrow> closed_bold p"
  using processCitations_parts [of t k] by (cases p) auto

text \<open>One turn of the loop, when a match is found.\<close>

lemma bold_loop_match:
  assumes "bold_exec t pos = Some (index, x, colon)"
  shows "bold_loop limit t pos parts =
     (case (if index > pos
            then push_rendered limit parts (processCitations (slice t pos index) (length parts))
            else Inr parts) of
        Inl e \<Rightarrow> Inl e
      | Inr parts1 \<Rightarrow>
          bold_loop limit t (index + (4 + length x + length colon))
            (parts1 @ [Strong (length parts1) x colon]))"
  using assms by (subst bold_loop.simps) simp

text \<open>
  What the loop keeps when it returns: the parts read back are the input up to
  \<^verbatim>\<open>lastIndex\<close>, citations carry digits, bold elements stand for closed pairs.
\<close>

lemma bold_loop_inv:
  "bold_loop limit t pos parts = Inr (pos', parts') \<Longrightarrow> pos \<le> length t \<Longrightarrow>
   concat (map source_of parts) = take pos t \<Longrightarrow>
   \<forall>p\<in>set parts. citation_digits p \<and> closed_bold p \<Longrightarrow>
   concat (map source_of parts') = take pos' t \<and> pos' \<le> length t \<and>
   (\<forall>p\<in>set parts'. citation_digits p \<and> closed_bold p)"
proof (induction limit t pos parts rule: bold_loop.induct)
  case (1 limit t pos parts)
  show ?case
  proof (cases "bold_exec t pos")
    case None
    with "1.prems" show ?thesis by (simp add: bold_loop.simps)
  next
    case (Some e)
    obtain index x colon where e: "e = (index, x, colon)" by (cases e)
    from Some e have ex: "bold_exec t pos = Some (index, x, colon)" by simp
    define pushed where "pushed = (if index > pos
            then push_rendered limit parts (processCitations (slice t pos index) (length parts))
            else Inr parts)"
    from "1.prems"(1) obtain parts1 where p1: "pushed = Inr parts1"
      and loop: "bold_loop limit t (index + (4 + length x + length colon))
            (parts1 @ [Strong (length parts1) x colon]) = Inr (pos', parts')"
      unfolding bold_loop_match [OF ex] pushed_def [symmetric]
      by (cases pushed) auto
    from bold_exec_bound [OF ex]
    have b: "pos \<le> index" "index + (4 + length x + length colon) \<le> length t"
      by auto
    from bold_exec_drop [OF ex] obtain post where
      d: "drop index t = (stars @ x @ stars @ colon) @ post"
      and x: "\<forall>c\<in>set x. is_dot c" and colon: "colon = [] \<or> colon = [COLON]" by auto
    have eq1: "parts1 = (if index > pos
        then parts @ parts_of (processCitations (slice t pos index) (length parts)) else parts)"
      using p1 by (auto simp: pushed_def dest: push_rendered_Inr split: if_splits)
    have s1: "concat (map source_of parts1) = take pos t @ slice t pos index"
      using "1.prems"(3) b(1) processCitations_parts [of "slice t pos index" "length parts"]
      by (auto simp: eq1) (simp add: slice_def)
    have len: "length (stars @ x @ stars @ colon) = 4 + length x + length colon"
      by simp
    have s2: "concat (map source_of (parts1 @ [Strong (length parts1) x colon])) =
        take (index + (4 + length x + length colon)) t"
      using take_step [OF b(1) d] s1 unfolding len by simp
    have g1: "\<forall>p\<in>set parts1. citation_digits p \<and> closed_bold p"
      using "1.prems"(4) processCitations_parts [of "slice t pos index" "length parts"]
        processCitations_closed_bold [of _ "slice t pos index" "length parts"]
      by (auto simp: eq1)
    have g2: "\<forall>p\<in>set (parts1 @ [Strong (length parts1) x colon]).
        citation_digits p \<and> closed_bold p"
      using g1 x colon by (auto simp: list_all_iff)
    from "1.IH" [OF ex refl refl p1 [unfolded pushed_def] loop b(2) s2 g2]
    show ?thesis .
  qed
qed

text \<open>A string no longer than the limit never makes the loop raise.\<close>

lemma bold_loop_returns:
  "length t \<le> limit \<Longrightarrow> \<exists>res. bold_loop limit t pos parts = Inr res"
proof (induction limit t pos parts rule: bold_loop.induct)
  case (1 limit t pos parts)
  show ?case
  proof (cases "bold_exec t pos")
    case None
    then show ?thesis by (simp add: bold_loop.simps)
  next
    case (Some e)
    obtain index x colon where e: "e = (index, x, colon)" by (cases e)
    from Some e have ex: "bold_exec t pos = Some (index, x, colon)" by simp
    have "length (slice t pos index) \<le> limit"
      using "1.prems" by (simp add: slice_def)
    from push_processCitations_returns [OF this, of parts "length parts"]
    have "\<exists>parts1. (if index > pos
            then push_rendered limit parts (processCitations (slice t pos index) (length parts))
            else Inr parts) = Inr parts1" by simp
    then obtain parts1 where p1: "(if index > pos
            then push_rendered limit parts (processCitations (slice t pos index) (length parts))
            else Inr parts) = Inr parts1" ..
    from "1.IH" [OF ex refl refl p1 "1.prems"] p1
    show ?thesis unfolding bold_loop_match [OF ex] by simp
  qed
qed

lemma processBoldAndCitations_returns:
  assumes "length t \<le> limit"
  shows "\<exists>r. processBoldAndCitations limit t = Inr r"
proof -
  from bold_loop_returns [OF assms, of 0 "[]"] obtain pos' parts'
    where l: "bold_loop limit t 0 [] = Inr (pos', parts')" by auto
  have "length (slice t pos' (length t)) \<le> limit"
    using assms by (simp add: slice_def)
  from push_processCitations_returns [OF this, of parts' "length parts'"]
  show ?thesis by (simp add: processBoldAndCitations_def l)
qed

text \<open>What the tokenizer returns, read back, is its input.\<close>

lemma processBoldAndCitations_parts:
  assumes "processBoldAndCitations limit t = Inr r"
  shows "concat (map source_of (parts_of r)) = t \<and>
   (\<forall>p\<in>set (parts_of r). citation_digits p \<and> closed_bold p)"
proof -
  from assms obtain pos' parts' where l: "bold_loop limit t 0 [] = Inr (pos', parts')"
    by (auto simp: processBoldAndCitations_def split: sum.splits)
  from bold_loop_inv [OF l] have inv: "concat (map source_of parts') = take pos' t"
    "pos' \<le> length t" "\<forall>p\<in>set parts'. citation_digits p \<and> closed_bold p"
    by auto
  define pushed where "pushed = (if pos' < length t
                 then push_rendered limit parts'
                        (processCitations (slice t pos' (length t)) (length parts'))
                 else Inr parts')"
  from assms l obtain parts where p: "pushed = Inr parts"
    and r: "r = (if length parts > 0 then Inr parts else Inl t)"
    by (auto simp: processBoldAndCitations_def pushed_def split: sum.splits)
  have eq: "parts = (if pos' < length t
      then parts' @ parts_of (processCitations (slice t pos' (length t)) (length parts'))
      else parts')"
    using p by (auto simp: pushed_def dest: push_rendered_Inr split: if_splits)
  have c: "concat (map source_of parts) = t"
    using inv(1,2) processCitations_parts [of "slice t pos' (length t)" "length parts'"]
    by (auto simp: eq) (simp add: slice_def)
  have g: "\<forall>p\<in>set parts. citation_digits p \<and> closed_bold p"
    using inv(3) processCitations_parts [of "slice t pos' (length t)" "length parts'"]
        processCitations_closed_bold [of _ "slice t pos' (length t)" "length parts'"]
    by (auto simp: eq)
  show ?thesis
  proof (cases "length parts > 0")
    case True
    with c g r show ?thesis by (simp add: parts_of_def)
  next
    case False
    with c r show ?thesis by (simp add: parts_of_def)
  qed
qed

text \<open>Without a closed bold span the whole string goes to the citation extractor.\<close>

lemma processBoldAndCitations_no_match:
  assumes "bold_search t = None"
  shows "processBoldAndCitations limit t =
           (if t = [] then Inr (Inl t)
            else (case push_rendered limit [] (processCitations t 0) of
                    Inl e \<Rightarrow> Inl e
                  | Inr parts \<Rightarrow> Inr (Inr parts)))"
proof -
  from assms have "bold_exec t 0 = None" by (simp add: bold_exec_def)
  then have l: "bold_loop limit t 0 [] = Inr (0, [])" by (simp add: bold_loop.simps)
  show ?thesis
  proof (cases "t = []")
    case True
    with l show ?thesis by (simp add: processBoldAndCitations_def)
  next
    case False
    have "parts \<noteq> []" if "push_rendered limit [] (processCitations t 0) = Inr parts" for parts
      using push_rendered_Inr [OF that] parts_of_processCitations_nonempty [of t 0] by simp
    with False show ?thesis
      by (auto simp: processBoldAndCitations_def l slice_def split: sum.splits)
  qed
qed

section \<open>The searches succeed exactly where there is a match\<close>

lemma RBRACKET_not_digit [simp]: "\<not> is_digit RBRACKET"
  by (simp add: is_digit_def RBRACKET_def)

lemma citation_marker_here_at: "citation_marker_here s \<Longrightarrow> citation_at s \<noteq> None"
proof -
  assume "citation_marker_here s"
  then obtain ds post where s: "s = LBRACKET # ds @ RBRACKET # post"
    and ne: "ds \<noteq> []" and d: "\<forall>d\<in>set ds. is_digit d"
    unfolding citation_marker_here_iff by blast
  from d have "takeWhile is_digit (ds @ RBRACKET # post) = ds"
    and "dropWhile is_digit (ds @ RBRACKET # post) = RBRACKET # post"
    by (simp_all add: takeWhile_append2 dropWhile_append2)
  with s ne show ?thesis by (simp add: citation_at_def starts_with_def)
qed

lemma has_citation_marker_search: "has_citation_marker s \<longleftrightarrow> citation_search s \<noteq> None"
proof
  show "has_citation_marker s \<Longrightarrow> citation_search s \<noteq> None"
  proof (induction s)
    case Nil
    then show ?case by simp
  next
    case (Cons c cs)
    then show ?case
      by (cases "citation_at (c # cs)") (auto dest: citation_marker_here_at)
  qed
next
  assume "citation_search s \<noteq> None"
  then show "has_citation_marker s"
    by (rule contrapos_np) (rule citation_search_None)
qed

lemma lazy_until_stars_run:
  "\<forall>c\<in>set x. is_dot c \<Longrightarrow> lazy_until_stars (x @ stars @ r) \<noteq> None"
proof (induction x)
  case Nil
  then show ?case by (simp add: stars_def starts_with_def)
next
  case (Cons c x)
  then show ?case by (cases "starts_with stars (c # x @ stars @ r)") auto
qed

lemma bold_span_here_at: "bold_span_here s \<Longrightarrow> bold_at s \<noteq> None"
proof -
  assume "bold_span_here s"
  then obtain x post where s: "s = stars @ x @ stars @ post" and d: "\<forall>c\<in>set x. is_dot c"
    unfolding bold_span_here_iff by blast
  from lazy_until_stars_run [OF d, of post] obtain y r
    where "lazy_until_stars (x @ stars @ post) = Some (y, r)" by auto
  with s show ?thesis by (simp add: bold_at_def)
qed

lemma has_bold_span_search: "has_bold_span s \<longleftrightarrow> bold_search s \<noteq> None"
proof
  show "has_bold_span s \<Longrightarrow> bold_search s \<noteq> None"
  proof (induction s)
    case Nil
    then show ?case by simp
  next
    case (Cons c cs)
    then show ?case
      by (cases "bold_at (c # cs)") (auto dest: bold_span_here_at)
  qed
next
  assume "bold_search s \<noteq> None"
  then show "has_bold_span s"
    by (rule contrapos_np) (rule bold_search_None)
qed

section \<open>Evaluation on literals\<close>

lemmas char_defs =
  LF_def STAR_def BULLET_def DASH_def PLUS_def DOT_def COLON_def LBRACKET_def RBRACKET_def
  stars_def is_line_terminator_def is_dot_def is_whitespace_def is_digit_def is_bullet_def

lemmas rx_defs =
  starts_with_def lit_then_def plus_then_def one_then_def opt_colon_then_def accept_def
  at_end_def rx_bullet_header_def rx_nested_def rx_bullet_def rx_plus_def rx_numbered_def
  rx_header_def

lemmas cit_defs =
  citation_at_def citation_exec_def citation_loop.simps processCitations_def slice_def

lemmas bold_defs =
  bold_at_def bold_exec_def bold_loop.simps processBoldAndCitations_def push_rendered_def
  with_content_def

lemmas view_defs =
  spans_of_def parts_of_def document_def decimal_def citation_marker_here_def
  bold_span_here_def

lemma js_note: "js ''[note]'' = [91, 110, 111, 116, 101, 93]"
  by (simp add: js_def)

lemma js_no_markers:
  "js ''No markers here.'' =
     [78, 111, 32, 109, 97, 114, 107, 101, 114, 115, 32, 104, 101, 114, 101, 46]"
  by (simp add: js_def)

lemma js_lone: "js ''[1]'' = [91, 49, 93]"
  by (simp add: js_def)

lemma js_see:
  "js ''See [1] and [2] for details'' =
     [83, 101, 101, 32, 91, 49, 93, 32, 97, 110, 100, 32, 91, 50, 93, 32, 102, 111, 114, 32,
      100, 101, 116, 97, 105, 108, 115]"
  by (simp add: js_def)

lemma js_see_parts:
  "js ''See '' = [83, 101, 101, 32]" "js '' and '' = [32, 97, 110, 100, 32]"
  "js '' for details'' = [32, 102, 111, 114, 32, 100, 101, 116, 97, 105, 108, 115]"
  by (simp_all add: js_def)

lemma js_unclosed:
  "js ''Unclosed **bold'' =
     [85, 110, 99, 108, 111, 115, 101, 100, 32, 42, 42, 98, 111, 108, 100]"
  by (simp add: js_def)

section \<open>The citation extractor\<close>

text \<open>
  The example of the specification: \<^verbatim>\<open>"See [1] and [2] for details"\<close> gives
  \<^verbatim>\<open>[Text("See "), Citation(1), Text(" and "), Citation(2), Text(" for details")]\<close>.
\<close>

lemma processCitations_example:
  "spans_of (processCitations (js ''See [1] and [2] for details'') 0) =
     [Text (js ''See ''), Citation 1, Text (js '' and ''), Citation 2,
      Text (js '' for details'')]"
  unfolding js_see js_see_parts
  by (simp add: char_defs rx_defs cit_defs view_defs)

text \<open>
  Claim C2. Every occurrence of an open bracket, digits and a close bracket becomes a
  Citation span. The code misses the case of a fragment that is one marker and nothing
  else: the loop collects the single citation element, and the last line returns the
  array only when it has more than one part, so the fragment \<^verbatim>\<open>"[1]"\<close> comes back as
  the plain string. It has a citation marker, its only span is the text \<^verbatim>\<open>"[1]"\<close>,
  and the tokenizer hands it on as that one string.
\<close>

theorem processCitations_lone_marker:
  "has_citation_marker (js ''[1]'') \<and>
   processCitations (js ''[1]'') 0 = Inl (js ''[1]'') \<and>
   spans_of (processCitations (js ''[1]'') 0) = [Text (js ''[1]'')] \<and>
   processBoldAndCitations limit (js ''[1]'') = Inr (Inr [Str (js ''[1]'')])"
  unfolding js_lone
  by (simp add: char_defs rx_defs cit_defs bold_defs view_defs)

text \<open>
  Claim C8. A fragment with no citation marker comes back from the citation extractor
  unchanged, as the string itself: observably one plain span holding the whole fragment.
  No citation element is ever made of anything but a non-empty run of digits, so a
  bracket group such as \<^verbatim>\<open>[note]\<close> stays text; and the parts of every result, read
  back, are the fragment itself.
\<close>

theorem processCitations_no_marker:
  "(\<not> has_citation_marker text \<longrightarrow>
      processCitations text k = Inl text \<and> spans_of (processCitations text k) = [Text text]) \<and>
   (\<forall>p\<in>set (parts_of (processCitations text k)). citation_digits p) \<and>
   concat (map source_of (parts_of (processCitations text k))) = text"
proof (intro conjI impI)
  assume "\<not> has_citation_marker text"
  then have "citation_search text = None" by (rule citation_search_None)
  then show "processCitations text k = Inl text" by (rule processCitations_no_match)
  then show "spans_of (processCitations text k) = [Text text]" by (simp add: spans_of_def)
next
  show "\<forall>p\<in>set (parts_of (processCitations text k)). citation_digits p"
    using processCitations_parts [of "text" k] by blast
  show "concat (map source_of (parts_of (processCitations text k))) = text"
    using processCitations_parts [of "text" k] by blast
qed

theorem processCitations_no_marker_witness:
  "\<not> has_citation_marker (js ''[note]'') \<and>
   processCitations (js ''[note]'') 0 = Inl (js ''[note]'') \<and>
   spans_of (processCitations (js ''[note]'') 0) = [Text (js ''[note]'')] \<and>
   \<not> has_citation_marker (js ''No markers here.'') \<and>
   spans_of (processCitations (js ''No markers here.'') 0) = [Text (js ''No markers here.'')]"
proof -
  have 1: "\<not> has_citation_marker (js ''[note]'')"
    unfolding js_note by (simp add: char_defs rx_defs view_defs)
  have 2: "\<not> has_citation_marker (js ''No markers here.'')"
    unfolding js_no_markers by (simp add: char_defs rx_defs view_defs)
  from 1 2 processCitations_no_marker [of "js ''[note]''" 0]
    processCitations_no_marker [of "js ''No markers here.''" 0]
  show ?thesis by blast
qed

section \<open>Many citation markers\<close>

lemma markers_Suc: "markers (Suc n) = [LBRACKET, 0x31, RBRACKET] @ markers n"
  by (simp add: markers_def)

lemma markers_snoc: "markers (Suc n) = markers n @ [LBRACKET, 0x31, RBRACKET]"
  unfolding markers_def by (induction n) simp_all

lemma length_markers [simp]: "length (markers n) = 3 * n"
  by (induction n) (simp_all add: markers_def)

lemma set_markers: "set (markers n) \<subseteq> {LBRACKET, 0x31, RBRACKET}"
  by (induction n) (auto simp: markers_def)

lemma markers_no_STAR: "STAR \<notin> set (markers n)"
  using set_markers [of n] by (auto simp: STAR_def LBRACKET_def RBRACKET_def)

lemma markers_no_LF: "LF \<notin> set (markers n)"
  using set_markers [of n] by (auto simp: LF_def LBRACKET_def RBRACKET_def)

lemma citation_at_marker:
  "citation_at ([LBRACKET, 0x31, RBRACKET] @ rest) = Some [0x31]"
  by (simp add: citation_at_def starts_with_def is_digit_def RBRACKET_def)

lemma citation_search_prefix:
  "LBRACKET \<notin> set pre \<Longrightarrow>
   citation_search (pre @ [LBRACKET, 0x31, RBRACKET] @ rest) = Some (length pre, [0x31])"
proof (induction pre)
  case Nil
  show ?case using citation_at_marker [of rest] by simp
next
  case (Cons c pre)
  then have "citation_at (c # pre @ [LBRACKET, 0x31, RBRACKET] @ rest) = None"
    by (simp add: citation_at_def)
  with Cons show ?case by simp
qed

text \<open>From a position where the rest is \<open>n\<close> markers, the loop adds \<open>n\<close> citations.\<close>

lemma citation_loop_markers:
  "\<exists>cs. citation_loop (pre @ markers n) k (length pre) parts =
          (length pre + 3 * n, parts @ cs) \<and> length cs = n"
proof (induction n arbitrary: pre parts)
  case 0
  have "citation_exec pre (length pre) = None" by (simp add: citation_exec_def)
  then show ?case by (simp add: markers_def citation_loop.simps)
next
  case (Suc n)
  let ?m = "[LBRACKET, 0x31, RBRACKET]"
  let ?t = "pre @ markers (Suc n)"
  let ?parts2 = "parts @ [CitationSpan k (length parts) [0x31]]"
  have "citation_search (drop (length pre) ?t) = Some (0, [0x31])"
    using citation_search_prefix [of "[]" "markers n"] by (simp add: markers_Suc)
  then have ex: "citation_exec ?t (length pre) = Some (length pre, [0x31])"
    by (simp add: citation_exec_def)
  have step: "citation_loop ?t k (length pre) parts =
      citation_loop ?t k (length (pre @ ?m)) ?parts2"
    by (subst citation_loop.simps) (simp add: ex)
  have t_eq: "(pre @ ?m) @ markers n = ?t" by (simp add: markers_Suc)
  have len_eq: "length (pre @ ?m) + 3 * n = length pre + 3 * Suc n" by simp
  from Suc [of "pre @ ?m" ?parts2]
  obtain cs where ih: "citation_loop ((pre @ ?m) @ markers n) k (length (pre @ ?m)) ?parts2 =
      (length (pre @ ?m) + 3 * n, ?parts2 @ cs)"
    and cs: "length cs = n" by blast
  have "citation_loop ?t k (length pre) parts =
      (length pre + 3 * Suc n, parts @ (CitationSpan k (length parts) [0x31] # cs))"
    unfolding step using ih unfolding t_eq len_eq by simp
  moreover have "length (CitationSpan k (length parts) [0x31] # cs) = Suc n"
    using cs by simp
  ultimately show ?case by blast
qed

lemma processCitations_markers:
  assumes "1 < n"
  shows "\<exists>ps. processCitations (markers n) k = Inr ps \<and> length ps = n"
proof -
  from citation_loop_markers [of "[]" n k "[]"] obtain cs where
    "citation_loop (markers n) k 0 [] = (3 * n, cs)" and "length cs = n" by auto
  with assms show ?thesis by (simp add: processCitations_def)
qed

text \<open>A prefix without a bracket, then \<open>n\<close> markers: the prefix and \<open>n\<close> citations.\<close>

lemma processCitations_prefix_markers:
  assumes "LBRACKET \<notin> set pre" and "pre \<noteq> []" and "0 < n"
  shows "\<exists>ps. processCitations (pre @ markers n) k = Inr ps \<and> length ps = Suc n"
proof -
  let ?m = "[LBRACKET, 0x31, RBRACKET]"
  from assms(3) obtain n' where n: "n = Suc n'" by (cases n) auto
  let ?t = "pre @ markers n"
  let ?parts2 = "[Str pre, CitationSpan k 1 [0x31]]"
  have "citation_search ?t = Some (length pre, [0x31])"
    using citation_search_prefix [OF assms(1), of "markers n'"] by (simp add: n markers_Suc)
  then have ex: "citation_exec ?t 0 = Some (length pre, [0x31])"
    by (simp add: citation_exec_def)
  have step: "citation_loop ?t k 0 [] = citation_loop ?t k (length (pre @ ?m)) ?parts2"
    using assms(2) by (subst citation_loop.simps) (simp add: ex slice_def)
  have t_eq: "(pre @ ?m) @ markers n' = ?t" by (simp add: n markers_Suc)
  have len_eq: "length (pre @ ?m) + 3 * n' = length ?t" by (simp add: n)
  from citation_loop_markers [of "pre @ ?m" n' k ?parts2]
  obtain cs where ih: "citation_loop ((pre @ ?m) @ markers n') k (length (pre @ ?m)) ?parts2 =
      (length (pre @ ?m) + 3 * n', ?parts2 @ cs)"
    and cs: "length cs = n'" by blast
  have "citation_loop ?t k 0 [] = (length ?t, ?parts2 @ cs)"
    unfolding step using ih unfolding t_eq len_eq by simp
  with cs n show ?thesis by (auto simp: processCitations_def)
qed

lemma bold_search_four_stars:
  assumes "bold_search s = Some r"
  shows "4 \<le> count_list s STAR"
proof -
  obtain i x colon where "r = (i, x, colon)" by (cases r)
  with assms have "has_bold_span s" by (auto dest: bold_search_span)
  then obtain pre x post where "s = pre @ stars @ x @ stars @ post"
    unfolding has_bold_span_iff by blast
  then show ?thesis by (simp add: stars_def)
qed

lemma count_list_none: "a \<notin> set s \<Longrightarrow> count_list s a = 0"
  by (induction s) auto

lemma trim_id:
  assumes "s \<noteq> []" and "\<not> is_whitespace (hd s)" and "\<not> is_whitespace (last s)"
  shows "trim s = s"
proof -
  from assms(1,2) have 1: "dropWhile is_whitespace s = s" by (cases s) auto
  from assms(1,3) have 2: "dropWhile is_whitespace (rev s) = rev s"
    by (cases "rev s") (auto simp: last_rev [symmetric] hd_rev simp del: last_rev)
  show ?thesis unfolding trim_def 1 2 by simp
qed

lemma trim_markers: "trim (markers n) = markers n"
proof (cases n)
  case 0
  then show ?thesis by (simp add: markers_def trim_def)
next
  case (Suc m)
  have h: "hd (markers (Suc m)) = LBRACKET" by (simp add: markers_Suc)
  have l: "last (markers (Suc m)) = RBRACKET" by (simp add: markers_snoc)
  have "trim (markers (Suc m)) = markers (Suc m)"
    by (rule trim_id) (simp_all add: h l, simp_all add: markers_Suc char_defs)
  with Suc show ?thesis by simp
qed

text \<open>A line of markers is a Paragraph line.\<close>

lemma forEach_body_markers:
  assumes "0 < n"
  shows "forEach_body limit (c, els) (markers n, i) =
     with_content (processBoldAndCitations limit (markers n))
       (\<lambda>content. (c, els @ [Paragraph i content]))"
proof -
  from assms obtain m where n: "n = Suc m" by (cases n) auto
  have r: "markers n = LBRACKET # 0x31 # RBRACKET # markers m"
    by (simp add: n markers_Suc)
  have "markers n \<noteq> []" "\<not> rx_bullet_header (markers n)" "\<not> rx_nested (markers n)"
    "\<not> rx_bullet (markers n)" "\<not> rx_plus (markers n)" "\<not> rx_numbered (markers n)"
    "\<not> rx_header (markers n)"
    unfolding r by (simp_all add: rx_defs char_defs)
  then show ?thesis by (simp add: forEach_body_def trim_markers)
qed

section \<open>Lines\<close>

lemma split_lf_nonempty [simp]: "split_lf s \<noteq> []"
  by (induction s) simp_all

lemma length_split_lf: "length (split_lf s) = Suc (length (filter (\<lambda>c. c = LF) s))"
  by (induction s) simp_all

lemma split_lf_no_LF: "LF \<notin> set a \<Longrightarrow> split_lf a = [a]"
  by (induction a) auto

lemma split_lf_append: "LF \<notin> set a \<Longrightarrow> split_lf (a @ LF # b) = a # split_lf b"
  by (induction a) auto

lemma split_lf_subset: "l \<in> set (split_lf s) \<Longrightarrow> set l \<subseteq> set s"
proof (induction s arbitrary: l)
  case Nil
  then show ?case by simp
next
  case (Cons c cs)
  show ?case
  proof (cases "c = LF")
    case True
    with Cons.prems have "l = [] \<or> l \<in> set (split_lf cs)" by simp
    with Cons.IH show ?thesis by auto
  next
    case False
    with Cons.prems have "l = c # hd (split_lf cs) \<or> l \<in> set (tl (split_lf cs))" by simp
    moreover have "set (hd (split_lf cs)) \<subseteq> set cs"
      using Cons.IH [of "hd (split_lf cs)"] by simp
    moreover have "l \<in> set (tl (split_lf cs)) \<Longrightarrow> set l \<subseteq> set cs"
      using Cons.IH [of l] by (cases "split_lf cs") auto
    ultimately show ?thesis by auto
  qed
qed

lemma split_lf_length: "l \<in> set (split_lf s) \<Longrightarrow> length l \<le> length s"
proof (induction s arbitrary: l)
  case Nil
  then show ?case by simp
next
  case (Cons c cs)
  show ?case
  proof (cases "c = LF")
    case True
    with Cons.prems have "l = [] \<or> l \<in> set (split_lf cs)" by simp
    with Cons.IH [of l] show ?thesis by auto
  next
    case False
    with Cons.prems have "l = c # hd (split_lf cs) \<or> l \<in> set (tl (split_lf cs))" by simp
    moreover have "length (hd (split_lf cs)) \<le> length cs"
      using Cons.IH [of "hd (split_lf cs)"] by simp
    moreover have "l \<in> set (tl (split_lf cs)) \<Longrightarrow> length l \<le> length cs"
      using Cons.IH [of l] by (cases "split_lf cs") auto
    ultimately show ?thesis by auto
  qed
qed

lemma trim_blank: "\<forall>c\<in>set s. is_whitespace c \<Longrightarrow> trim s = []"
proof -
  assume "\<forall>c\<in>set s. is_whitespace c"
  then have d: "dropWhile is_whitespace s = []" by (induction s) simp_all
  show ?thesis unfolding trim_def d by simp
qed

lemma length_trim: "length (trim s) \<le> length s"
proof -
  have "length (trim s) \<le> length (dropWhile is_whitespace s)"
    unfolding trim_def using length_dropWhile_le [of is_whitespace "rev (dropWhile is_whitespace s)"]
    by simp
  also have "\<dots> \<le> length s" by (rule length_dropWhile_le)
  finally show ?thesis .
qed

text \<open>No replacement makes a string longer.\<close>

lemma length_strip:
  "length (strip_bullet s) \<le> length s" "length (strip_nested s) \<le> length s"
  "length (strip_plus s) \<le> length s" "length (strip_number s) \<le> length s"
proof -
  have d: "length (dropWhile P r) \<le> length r" for P :: "code_unit \<Rightarrow> bool" and r
    by (rule length_dropWhile_le)
  have d2: "length (dropWhile P r2) \<le> length r"
    if "dropWhile Q r = b # r2" for P Q :: "code_unit \<Rightarrow> bool" and r r2 b
  proof -
    have "length (dropWhile P r2) \<le> length r2" by (rule d)
    also have "\<dots> \<le> length (dropWhile Q r)" using that by simp
    also have "\<dots> \<le> length r" by (rule d)
    finally show ?thesis .
  qed
  show "length (strip_bullet s) \<le> length s"
    using d [of is_whitespace "tl s"] by (cases s) (auto simp: strip_bullet_def)
  show "length (strip_plus s) \<le> length s"
    using d [of is_whitespace "tl s"] by (cases s) (auto simp: strip_plus_def)
  show "length (strip_nested s) \<le> length s"
  proof (cases s)
    case Nil
    then show ?thesis by (simp add: strip_nested_def)
  next
    case (Cons b r)
    then show ?thesis
      using d2 [of is_whitespace r _ _ is_whitespace]
      by (auto simp: strip_nested_def le_SucI split: list.splits)
  qed
  show "length (strip_number s) \<le> length s"
    using d2 [of is_digit s _ _ is_whitespace]
    by (auto simp: strip_number_def split: list.splits)
qed

section \<open>The loop over the lines\<close>

text \<open>
  A run of the loop body that returns has pushed one block and left the others alone;
  the counter is then what the NumberingRegister says, and a nested item shows the new
  value.
\<close>

lemma forEach_body_step:
  assumes "forEach_body limit (c, els) (line, i) = Inr st"
  shows "\<exists>b. st = (register_after c b, els @ [b]) \<and>
     (\<forall>k m r. b = NestedNumberedItem k m r \<longrightarrow> m = c + 1) \<and>
     forEach_body limit (c, []) (line, i) = Inr (register_after c b, [b])"
  using assms
  by (auto simp: forEach_body_def Let_def with_content_def split: if_splits sum.splits)

lemma forEach_body_Spacer:
  "forEach_body limit (c, []) (line, i) = Inr (c', [b]) \<Longrightarrow>
     b = Spacer k \<longleftrightarrow> trim line = [] \<and> k = i"
  by (auto simp: forEach_body_def Let_def with_content_def split: if_splits sum.splits)

lemma forEach_body_returns:
  assumes "length line \<le> limit"
  shows "\<exists>st'. forEach_body limit st (line, i) = Inr st'"
proof -
  have w: "\<exists>c' els'. with_content (processBoldAndCitations limit s) f = Inr (c', els')"
    if "length s \<le> length (trim line)" for s f
  proof -
    from that length_trim [of line] assms have "length s \<le> limit" by simp
    from processBoldAndCitations_returns [OF this] obtain r
      where "processBoldAndCitations limit s = Inr r" ..
    then show ?thesis by (cases "f r") (simp add: with_content_def)
  qed
  show ?thesis
    by (cases st) (simp add: forEach_body_def Let_def length_strip w)
qed

lemma forEach_returns:
  "\<forall>l\<in>set ls. length l \<le> limit \<Longrightarrow> \<exists>st'. forEach limit st (zip ls idx) = Inr st'"
proof (induction ls arbitrary: st idx)
  case Nil
  then show ?case by simp
next
  case (Cons l ls)
  show ?case
  proof (cases idx)
    case Nil
    then show ?thesis by simp
  next
    case (Cons j idx')
    from forEach_body_returns [of l limit st j] Cons.prems obtain st1
      where "forEach_body limit st (l, j) = Inr st1" by auto
    with Cons.IH [of st1 idx'] Cons.prems Cons show ?thesis by simp
  qed
qed

text \<open>
  When the loop returns, it has pushed one block for each line, in order; block \<open>i\<close> is
  what the body pushes for line \<open>i\<close>, and the display numbers are those of the register
  carried from line to line.
\<close>

lemma forEach_blocks:
  "forEach limit (c, els) (zip ls [n..<n + length ls]) = Inr (c', els') \<Longrightarrow>
   \<exists>bs. els' = els @ bs \<and> length bs = length ls \<and> register_numbers c bs \<and>
     c' = foldl register_after c bs \<and>
     (\<forall>i<length ls. \<exists>ci ci'. forEach_body limit (ci, []) (ls ! i, n + i) = Inr (ci', [bs ! i]))"
proof (induction ls arbitrary: c els n)
  case Nil
  then show ?case by simp
next
  case (Cons l ls)
  have "n < n + length (l # ls)" by simp
  from upt_conv_Cons [OF this]
  have upt: "[n..<n + length (l # ls)] = n # [Suc n..<Suc n + length ls]"
    by simp
  from Cons.prems obtain st1 where b: "forEach_body limit (c, els) (l, n) = Inr st1"
    and f: "forEach limit st1 (zip ls [Suc n..<Suc n + length ls]) = Inr (c', els')"
    unfolding upt by (auto split: sum.splits)
  from forEach_body_step [OF b] obtain b1 where
    st1: "st1 = (register_after c b1, els @ [b1])"
    and num: "\<forall>k m r. b1 = NestedNumberedItem k m r \<longrightarrow> m = c + 1"
    and b0: "forEach_body limit (c, []) (l, n) = Inr (register_after c b1, [b1])"
    by blast
  from Cons.IH [OF f [unfolded st1]] obtain bs where
    els': "els' = (els @ [b1]) @ bs" and len: "length bs = length ls"
    and reg: "register_numbers (register_after c b1) bs"
    and c': "c' = foldl register_after (register_after c b1) bs"
    and nth: "\<forall>i<length ls. \<exists>ci ci'.
        forEach_body limit (ci, []) (ls ! i, Suc n + i) = Inr (ci', [bs ! i])"
    by blast
  have "els' = els @ (b1 # bs)" using els' by simp
  moreover have "length (b1 # bs) = length (l # ls)" using len by simp
  moreover have "register_numbers c (b1 # bs)"
    using num reg by (cases b1) auto
  moreover have "c' = foldl register_after c (b1 # bs)" using c' by simp
  moreover have "\<forall>i<length (l # ls).
      \<exists>ci ci'. forEach_body limit (ci, []) ((l # ls) ! i, n + i) = Inr (ci', [(b1 # bs) ! i])"
  proof (intro allI impI)
    fix i assume i: "i < length (l # ls)"
    show "\<exists>ci ci'. forEach_body limit (ci, []) ((l # ls) ! i, n + i) =
        Inr (ci', [(b1 # bs) ! i])"
    proof (cases i)
      case 0
      with b0 show ?thesis by auto
    next
      case (Suc j)
      with i nth show ?thesis by auto
    qed
  qed
  ultimately show ?case by blast
qed

text \<open>What \<^verbatim>\<open>parseMarkdown\<close> returns for a string that is not empty.\<close>

lemma parseMarkdown_blocks:
  assumes "t \<noteq> []" and "parseMarkdown limit t = Inr d"
  shows "\<exists>blocks. d = Inr blocks \<and> length blocks = length (split_lf t) \<and>
     register_numbers 0 blocks \<and>
     (\<forall>i<length blocks.
        \<exists>c c'. forEach_body limit (c, []) (split_lf t ! i, i) = Inr (c', [blocks ! i]))"
proof -
  from assms obtain c' els' where
    f: "forEach limit (0, []) (zip (split_lf t) [0..<0 + length (split_lf t)]) = Inr (c', els')"
    and d: "d = Inr els'"
    by (auto simp: parseMarkdown_def forEach_lines_def split: sum.splits)
  from forEach_blocks [OF f] d show ?thesis by auto
qed

text \<open>A string no longer than the limit is parsed without an error.\<close>

lemma parseMarkdown_returns:
  assumes "length t \<le> limit"
  shows "\<exists>d. parseMarkdown limit t = Inr d"
proof -
  have "\<forall>l\<in>set (split_lf t). length l \<le> limit"
    using split_lf_length [of _ t] assms by fastforce
  from forEach_returns [OF this, of "(0, [])" "[0..<length (split_lf t)]"]
  show ?thesis by (auto simp: parseMarkdown_def forEach_lines_def)
qed

lemma document_parseMarkdown:
  "document (parseMarkdown limit t) = Some blocks \<longleftrightarrow>
     (if t = [] then blocks = [] else parseMarkdown limit t = Inr (Inr blocks))"
  by (auto simp: document_def parseMarkdown_def split: sum.splits)

lemmas parse_defs =
  parseMarkdown_def forEach_lines_def forEach_body_def trim_def strip_bullet_def
  strip_nested_def strip_plus_def strip_number_def number_label_def document_def

section \<open>One block per line\<close>

text \<open>
  Claim C1, as stated, at \<^verbatim>\<open>"a\rb"\<close>: split at the line terminators the input has
  the two lines \<^verbatim>\<open>"a"\<close> and \<^verbatim>\<open>"b"\<close>, but \<^verbatim>\<open>text.split('\n')\<close> splits at the line
  feed only, so the parser sees one line and makes one Paragraph. (The closed examples
  take 125000 for the engine's argument limit; here it plays no part.)
\<close>

theorem parseMarkdown_carriage_return:
  "terminator_lines [97, 0x0D, 98] = [[97], [98]] \<and>
   split_lf [97, 0x0D, 98] = [[97, 0x0D, 98]] \<and>
   document (parseMarkdown 125000 [97, 0x0D, 98]) =
     Some [Paragraph 0 (Inr [Str [97, 0x0D, 98]])]"
  by (simp add: parse_defs char_defs rx_defs cit_defs bold_defs)

text \<open>
  Claim C1, amended. Whenever the parser returns a document, it has exactly one block
  per piece of \<^verbatim>\<open>text.split('\n')\<close> (one more than the input has line feeds, trailing
  and blank lines included; none for the empty string, which comes back as it is), in
  the order of the lines: the block at index \<open>i\<close> is the element the loop body pushes
  for line \<open>i\<close>, and it is the Spacer of that index exactly when the line is blank after
  trimming. The parser does return a document for every input no longer than the
  engine's argument limit.
\<close>

theorem parseMarkdown_one_block_per_line:
  "(\<forall>blocks. document (parseMarkdown limit text) = Some blocks \<longrightarrow>
      length blocks = (if text = [] then 0 else length (split_lf text)) \<and>
      length blocks = (if text = [] then 0 else Suc (length (filter (\<lambda>c. c = LF) text))) \<and>
      (\<forall>i<length blocks.
         (\<exists>c c'. forEach_body limit (c, []) (split_lf text ! i, i) = Inr (c', [blocks ! i])) \<and>
         (blocks ! i = Spacer i \<longleftrightarrow> trim (split_lf text ! i) = []))) \<and>
   (length text \<le> limit \<longrightarrow> (\<exists>blocks. document (parseMarkdown limit text) = Some blocks))"
proof (intro conjI allI impI)
  fix blocks
  assume d: "document (parseMarkdown limit text) = Some blocks"
  have *: "length blocks = (if text = [] then 0 else length (split_lf text)) \<and>
      (\<forall>i<length blocks.
         (\<exists>c c'. forEach_body limit (c, []) (split_lf text ! i, i) = Inr (c', [blocks ! i])) \<and>
         (blocks ! i = Spacer i \<longleftrightarrow> trim (split_lf text ! i) = []))"
  proof (cases "text = []")
    case True
    with d show ?thesis by (simp add: document_parseMarkdown)
  next
    case False
    with d have p: "parseMarkdown limit text = Inr (Inr blocks)"
      by (simp add: document_parseMarkdown)
    from parseMarkdown_blocks [OF False p] have len: "length blocks = length (split_lf text)"
      and nth: "\<forall>i<length blocks.
        \<exists>c c'. forEach_body limit (c, []) (split_lf text ! i, i) = Inr (c', [blocks ! i])"
      by auto
    have "blocks ! i = Spacer i \<longleftrightarrow> trim (split_lf text ! i) = []"
      if "i < length blocks" for i
    proof -
      from nth that obtain c c' where
        "forEach_body limit (c, []) (split_lf text ! i, i) = Inr (c', [blocks ! i])" by blast
      from forEach_body_Spacer [OF this, of i] show ?thesis by simp
    qed
    with False len nth show ?thesis by simp
  qed
  from * show "length blocks = (if text = [] then 0 else length (split_lf text))" by blast
  with length_split_lf [of "text"]
  show "length blocks = (if text = [] then 0 else Suc (length (filter (\<lambda>c. c = LF) text)))"
    by simp
  fix i assume "i < length blocks"
  with * show "\<exists>c c'. forEach_body limit (c, []) (split_lf text ! i, i) = Inr (c', [blocks ! i])"
    and "blocks ! i = Spacer i \<longleftrightarrow> trim (split_lf text ! i) = []" by blast+
next
  assume "length text \<le> limit"
  from parseMarkdown_returns [OF this] obtain d where p: "parseMarkdown limit text = Inr d" ..
  show "\<exists>blocks. document (parseMarkdown limit text) = Some blocks"
    unfolding p by (cases d) (simp_all add: document_def)
qed

lemma js_ab: "js ''a'' = [97]" "js ''b'' = [98]"
  by (simp_all add: js_def)

theorem parseMarkdown_one_block_per_line_witness:
  "split_lf (js ''a'' @ [LF, LF] @ js ''b'') = [js ''a'', [], js ''b''] \<and>
   length (js ''a'' @ [LF, LF] @ js ''b'') \<le> 125000 \<and>
   (\<exists>blocks. document (parseMarkdown 125000 (js ''a'' @ [LF, LF] @ js ''b'')) = Some blocks \<and>
      length blocks = 3 \<and> blocks ! 1 = Spacer 1)"
proof -
  have 1: "js ''a'' @ [LF, LF] @ js ''b'' \<noteq> []" by simp
  have 2: "split_lf (js ''a'' @ [LF, LF] @ js ''b'') = [js ''a'', [], js ''b'']"
    unfolding js_ab by (simp add: LF_def)
  have 3: "trim [] = []" by (simp add: trim_def)
  have 4: "length (js ''a'' @ [LF, LF] @ js ''b'') \<le> 125000"
    unfolding js_ab by simp
  from parseMarkdown_one_block_per_line [of 125000 "js ''a'' @ [LF, LF] @ js ''b''"] 4
  obtain blocks where
    d: "document (parseMarkdown 125000 (js ''a'' @ [LF, LF] @ js ''b'')) = Some blocks"
    by blast
  with parseMarkdown_one_block_per_line [of 125000 "js ''a'' @ [LF, LF] @ js ''b''"]
  have "length blocks = (if js ''a'' @ [LF, LF] @ js ''b'' = [] then 0
          else length (split_lf (js ''a'' @ [LF, LF] @ js ''b'')))"
    and "\<forall>i<length blocks. blocks ! i = Spacer i \<longleftrightarrow>
          trim (split_lf (js ''a'' @ [LF, LF] @ js ''b'') ! i) = []"
    by blast+
  with 1 2 3 have "length blocks = 3 \<and> blocks ! 1 = Spacer 1"
    by (auto simp: eval_nat_numeral)
  with d 2 4 show ?thesis by blast
qed

section \<open>Blank input\<close>

lemma forEach_blank:
  "\<forall>l\<in>set ls. trim l = [] \<Longrightarrow>
   forEach limit (c, els) (zip ls [n..<n + length ls]) =
     Inr (c, els @ map Spacer [n..<n + length ls])"
proof (induction ls arbitrary: els n)
  case Nil
  then show ?case by simp
next
  case (Cons l ls)
  have "n < n + length (l # ls)" by simp
  from upt_conv_Cons [OF this]
  have upt: "[n..<n + length (l # ls)] = n # [Suc n..<Suc n + length ls]"
    by simp
  from Cons.prems have b: "forEach_body limit (c, els) (l, n) = Inr (c, els @ [Spacer n])"
    by (simp add: forEach_body_def)
  from Cons.IH [of "els @ [Spacer n]" "Suc n"] Cons.prems b show ?case
    unfolding upt by simp
qed

lemma parseMarkdown_blank:
  assumes "t \<noteq> []" and "\<forall>c\<in>set t. is_whitespace c"
  shows "parseMarkdown limit t = Inr (Inr (map Spacer [0..<length (split_lf t)]))"
proof -
  have "\<forall>l\<in>set (split_lf t). trim l = []"
    using split_lf_subset [of _ t] assms(2) by (blast intro: trim_blank)
  from forEach_blank [OF this, of limit 0 "[]" 0] assms(1) show ?thesis
    by (simp add: parseMarkdown_def forEach_lines_def)
qed

text \<open>
  Claim C5, as stated, at \<^verbatim>\<open>"\n\n"\<close>: the two line feeds separate three empty
  lines, and the parser makes three Spacer blocks, not two.
\<close>

theorem parseMarkdown_two_line_feeds:
  "split_lf [LF, LF] = [[], [], []] \<and>
   document (parseMarkdown 125000 [LF, LF]) = Some [Spacer 0, Spacer 1, Spacer 2] \<and>
   map_option length (document (parseMarkdown 125000 [LF, LF])) \<noteq> Some 2"
  by (simp add: parse_defs upt_conv_Cons)

text \<open>
  Claim C5, amended. The empty string comes back as it is and gives no block. A string
  that is not empty and holds only white space (line feeds included) gives Spacer blocks
  only, one per piece of \<^verbatim>\<open>text.split('\n')\<close>, each with the index of its line. The
  input \<^verbatim>\<open>"\n\n"\<close> gives exactly three Spacer blocks.
\<close>

theorem parseMarkdown_blank_input:
  "parseMarkdown limit [] = Inr (Inl []) \<and> document (parseMarkdown limit []) = Some [] \<and>
   (text \<noteq> [] \<and> (\<forall>c\<in>set text. is_whitespace c) \<longrightarrow>
      document (parseMarkdown limit text) = Some (map Spacer [0..<length (split_lf text)]) \<and>
      map_option length (document (parseMarkdown limit text)) =
        Some (Suc (length (filter (\<lambda>c. c = LF) text)))) \<and>
   document (parseMarkdown limit [LF, LF]) = Some [Spacer 0, Spacer 1, Spacer 2]"
proof (intro conjI impI)
  show "parseMarkdown limit [] = Inr (Inl [])" by (simp add: parseMarkdown_def)
  then show "document (parseMarkdown limit []) = Some []" by (simp add: document_def)
  have "[LF, LF] \<noteq> [] \<and> (\<forall>c\<in>set [LF, LF]. is_whitespace c)"
    by (simp add: is_whitespace_def is_line_terminator_def LF_def)
  then have "parseMarkdown limit [LF, LF] =
      Inr (Inr (map Spacer [0..<length (split_lf [LF, LF])]))"
    using parseMarkdown_blank [of "[LF, LF]"] by blast
  then show "document (parseMarkdown limit [LF, LF]) = Some [Spacer 0, Spacer 1, Spacer 2]"
    by (simp add: document_def upt_conv_Cons)
next
  assume a: "text \<noteq> [] \<and> (\<forall>c\<in>set text. is_whitespace c)"
  then have p: "parseMarkdown limit text = Inr (Inr (map Spacer [0..<length (split_lf text)]))"
    using parseMarkdown_blank [of "text"] by blast
  then show "document (parseMarkdown limit text) = Some (map Spacer [0..<length (split_lf text)])"
    by (simp add: document_def)
  then show "map_option length (document (parseMarkdown limit text)) =
        Some (Suc (length (filter (\<lambda>c. c = LF) text)))"
    by (simp add: length_split_lf)
qed

text \<open>A space, a tab, a line feed, a carriage return and a space: two blank lines.\<close>

theorem parseMarkdown_blank_input_witness:
  "[32, 9, LF, 13, 32] \<noteq> [] \<and> list_all is_whitespace [32, 9, LF, 13, 32] \<and>
   document (parseMarkdown 125000 [32, 9, LF, 13, 32]) = Some [Spacer 0, Spacer 1]"
proof -
  have 1: "[32, 9, LF, 13, 32] \<noteq> [] \<and> (\<forall>c\<in>set [32, 9, LF, 13, 32]. is_whitespace c)"
    by (simp add: is_whitespace_def is_line_terminator_def LF_def)
  have 2: "split_lf [32, 9, LF, 13, 32] = [[32, 9], [13, 32]]"
    by (simp add: LF_def)
  from parseMarkdown_blank_input [of 125000 "[32, 9, LF, 13, 32]"] 1 2 show ?thesis
    by (simp add: upt_conv_Cons list_all_iff)
qed

section \<open>Inputs on which the spread raises\<close>

lemma processBoldAndCitations_markers:
  assumes "limit < n" and "1 < n"
  shows "processBoldAndCitations limit (markers n) = Inl RangeError"
proof -
  have "count_list (markers n) STAR = 0"
    using markers_no_STAR by (rule count_list_none)
  with bold_search_four_stars [of "markers n"] have b: "bold_search (markers n) = None"
    by (cases "bold_search (markers n)") auto
  from processCitations_markers [OF assms(2), of 0] obtain ps
    where c: "processCitations (markers n) 0 = Inr ps" and l: "length ps = n" by blast
  from assms(2) have ne: "markers n \<noteq> []"
    by (cases n) (simp_all add: markers_Suc)
  show ?thesis
    unfolding processBoldAndCitations_no_match [OF b] using ne assms(1) l
    by (simp add: c push_rendered_def)
qed

text \<open>
  Claim C9. The parser never raises an error. The code raises: a line of \<open>n\<close> citation
  markers is a Paragraph line, the citation extractor returns its \<open>n\<close> citation elements
  as an array, and \<^verbatim>\<open>parts.push(...citationParts)\<close> at line 145 spreads them into one
  call, which raises the \<^verbatim>\<open>RangeError\<close> as soon as \<open>n\<close> is more than the engine takes.
\<close>

theorem parseMarkdown_many_markers:
  assumes "limit < n" and "1 < n"
  shows "parseMarkdown limit (markers n) = Inl RangeError"
proof -
  from assms(2) have ne: "markers n \<noteq> []"
    by (cases n) (simp_all add: markers_Suc)
  have s: "split_lf (markers n) = [markers n]"
    using markers_no_LF by (rule split_lf_no_LF)
  have "forEach_body limit (0, []) (markers n, 0) = Inl RangeError"
    using assms by (simp add: forEach_body_markers processBoldAndCitations_markers
        with_content_def)
  with ne show ?thesis
    by (simp add: parseMarkdown_def forEach_lines_def s)
qed

theorem parseMarkdown_many_markers_witness:
  "(125000::nat) < 150000 \<and> parseMarkdown 125000 (markers 150000) = Inl RangeError \<and>
   document (parseMarkdown 125000 (markers 150000)) = None"
  using parseMarkdown_many_markers [of 125000 150000] by (simp add: document_def)

text \<open>
  Claim C4. On a content string with an opening bold delimiter pair and no closing pair
  the tokenizer does not throw. The code throws when enough citation markers follow:
  no bold span is found, the whole string goes to the citation extractor, and the array
  of the prefix and the \<open>n\<close> citations is spread into one call at line 145.
\<close>

theorem processBoldAndCitations_unclosed_many_markers:
  assumes "STAR \<notin> set pre" and "LBRACKET \<notin> set pre" and "0 < n" and "limit \<le> n"
  shows "\<not> has_bold_span (pre @ stars @ markers n) \<and>
     processBoldAndCitations limit (pre @ stars @ markers n) = Inl RangeError"
proof -
  let ?t = "pre @ stars @ markers n"
  have "count_list ?t STAR = 2"
    using assms(1) markers_no_STAR [of n] by (simp add: count_list_none stars_def)
  with bold_search_four_stars [of ?t] have b: "bold_search ?t = None"
    by (cases "bold_search ?t") auto
  then have nb: "\<not> has_bold_span ?t" by (simp add: has_bold_span_search)
  have "LBRACKET \<notin> set (pre @ stars)"
    using assms(2) by (simp add: stars_def STAR_def LBRACKET_def)
  from processCitations_prefix_markers [OF this _ assms(3), of 0] obtain ps
    where c: "processCitations ((pre @ stars) @ markers n) 0 = Inr ps"
      and l: "length ps = Suc n"
    by (auto simp: stars_def)
  have "processBoldAndCitations limit ?t = Inl RangeError"
    unfolding processBoldAndCitations_no_match [OF b] using c l assms(4)
    by (simp add: push_rendered_def stars_def)
  with nb show ?thesis by blast
qed

lemma js_unclosed_prefix:
  "js ''Unclosed **'' = js ''Unclosed '' @ stars"
  "js ''Unclosed '' = [85, 110, 99, 108, 111, 115, 101, 100, 32]"
  by (simp_all add: js_def stars_def STAR_def)

theorem processBoldAndCitations_unclosed_many_markers_witness:
  "STAR \<notin> set (js ''Unclosed '') \<and> LBRACKET \<notin> set (js ''Unclosed '') \<and>
   \<not> has_bold_span (js ''Unclosed **'' @ markers 150000) \<and>
   processBoldAndCitations 125000 (js ''Unclosed **'' @ markers 150000) = Inl RangeError"
proof -
  have 1: "STAR \<notin> set (js ''Unclosed '')" "LBRACKET \<notin> set (js ''Unclosed '')"
    unfolding js_unclosed_prefix(2) by (simp_all add: STAR_def LBRACKET_def)
  from processBoldAndCitations_unclosed_many_markers [OF 1, of 150000 125000] 1
  show ?thesis by (simp add: js_unclosed_prefix(1))
qed

text \<open>
  The rest of claim C4 holds whenever the tokenizer returns: the parts read back are the
  content string, so no character is lost, and every bold element stands for a closed
  pair of delimiters. Without a closed bold span there is no bold element at all, and
  without a citation marker either the result is the one string.
\<close>

lemma processBoldAndCitations_unclosed:
  assumes "processBoldAndCitations limit t = Inr r"
  shows "concat (map source_of (parts_of r)) = t \<and>
   (\<forall>p\<in>set (parts_of r). closed_bold p) \<and>
   (\<not> has_bold_span t \<longrightarrow>
      (\<forall>p\<in>set (parts_of r). \<not> is_Strong p) \<and>
      (\<not> has_citation_marker t \<longrightarrow> spans_of r = [Text t]))"
proof (intro conjI impI)
  show "concat (map source_of (parts_of r)) = t"
    using processBoldAndCitations_parts [OF assms] by blast
  show "\<forall>p\<in>set (parts_of r). closed_bold p"
    using processBoldAndCitations_parts [OF assms] by blast
next
  assume "\<not> has_bold_span t"
  then have "bold_search t = None" by (rule bold_search_None)
  note m = processBoldAndCitations_no_match [OF this, of limit]
  from assms m have r: "t \<noteq> [] \<Longrightarrow> r = Inr (parts_of (processCitations t 0))"
    by (auto split: sum.splits if_splits dest: push_rendered_Inr)
  from assms m have e: "t = [] \<Longrightarrow> r = Inl []" by simp
  show "\<forall>p\<in>set (parts_of r). \<not> is_Strong p"
    using processCitations_parts [of t 0] r e by (cases "t = []") (auto simp: parts_of_def)
  assume "\<not> has_citation_marker t"
  then have "processCitations t 0 = Inl t"
    by (intro processCitations_no_match citation_search_None)
  with r e show "spans_of r = [Text t]"
    by (cases "t = []") (simp_all add: spans_of_def parts_of_def)
qed

text \<open>The example of the specification, whatever the engine's limit.\<close>

lemma processBoldAndCitations_unclosed_example:
  "processBoldAndCitations limit (js ''Unclosed **bold'') = Inr (Inr [Str (js ''Unclosed **bold'')])"
  unfolding js_unclosed
  by (simp add: char_defs rx_defs cit_defs bold_defs)

section \<open>The classification of bullet lines\<close>

lemma star_then_here: "K s \<Longrightarrow> star_then P K s"
  by (cases s) simp_all

lemma star_then_run: "\<forall>c\<in>set x. P c \<Longrightarrow> K r \<Longrightarrow> star_then P K (x @ r)"
  unfolding star_then_iff by blast

lemma dropWhile_stars [simp]: "dropWhile is_whitespace (stars @ r) = stars @ r"
  by (simp add: stars_def)

text \<open>A bullet marker, then a closed bold span, with no white space between.\<close>

lemma rx_bullet_header_direct:
  assumes "is_bullet b" and "\<forall>c\<in>set x. is_dot c"
  shows "rx_bullet_header (b # stars @ x @ stars @ rest)"
proof -
  have "opt_colon_then accept rest" by (simp add: opt_colon_then_def)
  then have "lit_then stars (opt_colon_then accept) (stars @ rest)" by simp
  with assms(2) have "star_then is_dot (lit_then stars (opt_colon_then accept))
      (x @ stars @ rest)"
    by (rule star_then_run)
  then have "lit_then stars (star_then is_dot (lit_then stars (opt_colon_then accept)))
      (stars @ x @ stars @ rest)" by simp
  then have "star_then is_whitespace
      (lit_then stars (star_then is_dot (lit_then stars (opt_colon_then accept))))
      (stars @ x @ stars @ rest)"
    by (rule star_then_here)
  with assms(1) show ?thesis by (simp add: rx_bullet_header_def)
qed

text \<open>A bullet marker, white space, a second bullet marker.\<close>

lemma rx_nested_spaced:
  assumes "is_bullet b1" and "is_bullet b2" and "ws \<noteq> []" and "\<forall>c\<in>set ws. is_whitespace c"
  shows "rx_nested (b1 # ws @ b2 # rest)"
    and "strip_nested (b1 # ws @ b2 # rest) = dropWhile is_whitespace rest"
proof -
  have "one_then is_bullet accept (b2 # rest)" using assms(2) by simp
  with assms(3,4) have "plus_then is_whitespace (one_then is_bullet accept) (ws @ b2 # rest)"
    unfolding plus_then_iff by blast
  with assms(1) show "rx_nested (b1 # ws @ b2 # rest)" by (simp add: rx_nested_def)
  have nb: "\<not> is_whitespace b2" using assms(2) by (rule bullet_not_whitespace)
  have t: "takeWhile is_whitespace (ws @ b2 # rest) = ws"
    using assms(4) nb by (simp add: takeWhile_append2)
  have d: "dropWhile is_whitespace (ws @ b2 # rest) = b2 # rest"
    using assms(4) nb by (simp add: dropWhile_append2)
  show "strip_nested (b1 # ws @ b2 # rest) = dropWhile is_whitespace rest"
    using assms(1,2,3) by (simp add: strip_nested_def t d)
qed

text \<open>
  Claim C10. A line whose trimmed form is a bullet marker directly followed by a closed
  bold span (and anything after it) takes the BulletHeader branch, with no white space
  needed between marker and span: the content is the line without the marker, and with
  the content the tokenizer returns for it the block is a BulletHeader and the counter is
  reset to 0. The tokenizer does return for every line no longer than the engine's
  argument limit.
\<close>

theorem bullet_header_without_space:
  assumes "is_bullet b" and "\<forall>c\<in>set x. is_dot c"
    and "trim line = b # stars @ x @ stars @ rest"
  shows "forEach_body limit (c, els) (line, i) =
     with_content (processBoldAndCitations limit (stars @ x @ stars @ rest))
       (\<lambda>content. (0, els @ [BulletHeader i content])) \<and>
     (length line \<le> limit \<longrightarrow>
        (\<exists>content. forEach_body limit (c, els) (line, i) =
           Inr (0, els @ [BulletHeader i content])))"
proof -
  have "rx_bullet_header (trim line)"
    unfolding assms(3) using assms(1,2) by (rule rx_bullet_header_direct)
  moreover have "strip_bullet (trim line) = stars @ x @ stars @ rest"
    unfolding assms(3) using assms(1) by (simp add: strip_bullet_def)
  ultimately have branch: "forEach_body limit (c, els) (line, i) =
     with_content (processBoldAndCitations limit (stars @ x @ stars @ rest))
       (\<lambda>content. (0, els @ [BulletHeader i content]))"
    using assms(3) by (simp add: forEach_body_def)
  have "\<exists>content. forEach_body limit (c, els) (line, i) =
      Inr (0, els @ [BulletHeader i content])" if "length line \<le> limit"
  proof -
    have "length (stars @ x @ stars @ rest) \<le> length (trim line)"
      unfolding assms(3) by simp
    with that length_trim [of line] have "length (stars @ x @ stars @ rest) \<le> limit"
      by simp
    from processBoldAndCitations_returns [OF this] show ?thesis
      unfolding branch by (auto simp: with_content_def)
  qed
  with branch show ?thesis by blast
qed

lemma js_direct:
  "js ''***Direct Answer**:'' = STAR # stars @ js ''Direct Answer'' @ stars @ js '':''"
  "js ''Direct Answer'' = [68, 105, 114, 101, 99, 116, 32, 65, 110, 115, 119, 101, 114]"
  "js '':'' = [58]"
  "js ''Direct Answer:'' = js ''Direct Answer'' @ js '':''"
  "js '' Paris'' = [32, 80, 97, 114, 105, 115]"
  "js ''* **Direct Answer**: Paris'' =
     STAR # 32 # stars @ js ''Direct Answer'' @ stars @ js '':'' @ js '' Paris''"
  by (simp_all add: js_def stars_def STAR_def)

lemma bold_direct:
  "processBoldAndCitations limit (stars @ js ''Direct Answer'' @ stars @ js '':'') =
     Inr (Inr [Strong 0 (js ''Direct Answer'') (js '':'')])"
  "processBoldAndCitations limit
     (stars @ js ''Direct Answer'' @ stars @ js '':'' @ js '' Paris'') =
     Inr (Inr [Strong 0 (js ''Direct Answer'') (js '':''), Str (js '' Paris'')])"
  unfolding js_direct(2,3,5)
  by (simp_all add: char_defs rx_defs cit_defs bold_defs)

theorem bullet_header_without_space_witness:
  "is_bullet STAR \<and> list_all is_dot (js ''Direct Answer'') \<and>
   trim (js ''***Direct Answer**:'') = STAR # stars @ js ''Direct Answer'' @ stars @ js '':'' \<and>
   forEach_body 125000 (4, []) (js ''***Direct Answer**:'', 0) =
     Inr (0, [BulletHeader 0 (Inr [Strong 0 (js ''Direct Answer'') (js '':'')])])"
proof -
  have 1: "is_bullet STAR" by (simp add: is_bullet_def)
  have 2: "\<forall>c\<in>set (js ''Direct Answer''). is_dot c"
    unfolding js_direct(2) by (simp add: char_defs)
  have 3: "trim (js ''***Direct Answer**:'') =
      STAR # stars @ js ''Direct Answer'' @ stars @ js '':''"
    unfolding js_direct(1) unfolding js_direct(2,3) by (simp add: trim_def char_defs)
  from bullet_header_without_space [OF 1 2 3, of 125000 4 "[]" 0] 1 2 3 show ?thesis
    by (simp add: bold_direct list_all_iff with_content_def)
qed

text \<open>
  Claim C6. The line \<^verbatim>\<open>"* **Direct Answer**: Paris"\<close> gives, whatever the counter
  was, the counter 0 and one BulletHeader block, whose parts are the bold element of
  \<^verbatim>\<open>Direct Answer\<close> with the colon and the string \<^verbatim>\<open>" Paris"\<close>: the spans
  \<^verbatim>\<open>[Bold("Direct Answer:"), Text(" Paris")]\<close>.
\<close>

theorem direct_answer_line:
  "forEach_body limit (c, els) (js ''* **Direct Answer**: Paris'', i) =
     Inr (0, els @ [BulletHeader i
                 (Inr [Strong 0 (js ''Direct Answer'') (js '':''), Str (js '' Paris'')])]) \<and>
   parseMarkdown limit (js ''* **Direct Answer**: Paris'') =
     Inr (Inr [BulletHeader 0
           (Inr [Strong 0 (js ''Direct Answer'') (js '':''), Str (js '' Paris'')])]) \<and>
   map_option (map block_spans) (document (parseMarkdown limit (js ''* **Direct Answer**: Paris''))) =
     Some [[Bold (js ''Direct Answer:''), Text (js '' Paris'')]]"
proof -
  have t: "trim (js ''* **Direct Answer**: Paris'') = js ''* **Direct Answer**: Paris''"
    unfolding js_direct(6) unfolding js_direct(2,3,5) by (simp add: trim_def char_defs)
  have h: "rx_bullet_header (js ''* **Direct Answer**: Paris'')"
    unfolding js_direct(6) unfolding js_direct(2,3,5) by (simp add: char_defs rx_defs)
  have s: "strip_bullet (js ''* **Direct Answer**: Paris'') =
      stars @ js ''Direct Answer'' @ stars @ js '':'' @ js '' Paris''"
    unfolding js_direct(6) unfolding js_direct(2,3,5) by (simp add: strip_bullet_def char_defs)
  have n: "js ''* **Direct Answer**: Paris'' \<noteq> []"
    unfolding js_direct(6) by simp
  have l: "split_lf (js ''* **Direct Answer**: Paris'') = [js ''* **Direct Answer**: Paris'']"
    by (rule split_lf_no_LF) (simp add: js_direct(6) js_direct(2,3,5) char_defs)
  have f: "forEach_body limit (c, els) (js ''* **Direct Answer**: Paris'', i) =
     Inr (0, els @ [BulletHeader i
                 (Inr [Strong 0 (js ''Direct Answer'') (js '':''), Str (js '' Paris'')])])"
    for c els i
    using n by (simp add: forEach_body_def t h s bold_direct with_content_def)
  have p: "parseMarkdown limit (js ''* **Direct Answer**: Paris'') =
     Inr (Inr [BulletHeader 0
           (Inr [Strong 0 (js ''Direct Answer'') (js '':''), Str (js '' Paris'')])])"
    using n by (simp add: parseMarkdown_def forEach_lines_def l f)
  have "map_option (map block_spans)
      (document (parseMarkdown limit (js ''* **Direct Answer**: Paris''))) =
     Some [[Bold (js ''Direct Answer:''), Text (js '' Paris'')]]"
    unfolding p by (simp add: document_def spans_of_def js_direct(4))
  with f p show ?thesis by blast
qed

theorem direct_answer_line_witness:
  "forEach_body 125000 (2, [Spacer 0]) (js ''* **Direct Answer**: Paris'', 1) =
     Inr (0, [Spacer 0, BulletHeader 1
                 (Inr [Strong 0 (js ''Direct Answer'') (js '':''), Str (js '' Paris'')])])"
  using direct_answer_line [of 125000 2 "[Spacer 0]" 1] by simp

lemma js_dashes: "js ''-- x'' = [45, 45, 32, 120]"
  by (simp add: js_def)

text \<open>
  Claim C7, as stated, at the line \<^verbatim>\<open>"-- x"\<close>: its trimmed form starts with a bullet
  marker followed immediately by a second one and does not match the BulletHeader
  pattern, yet the pattern of line 43 asks for white space between the two markers, so
  the line is a Paragraph and the counter stays as it was.
\<close>

theorem adjacent_markers_paragraph:
  "is_bullet DASH \<and> trim (js ''-- x'') = DASH # DASH # js '' x'' \<and>
   \<not> rx_bullet_header (trim (js ''-- x'')) \<and> \<not> rx_nested (trim (js ''-- x'')) \<and>
   forEach_body 125000 (0, []) (js ''-- x'', 0) =
     Inr (0, [Paragraph 0 (Inr [Str (js ''-- x'')])])"
proof -
  have x: "js '' x'' = [32, 120]" by (simp add: js_def)
  have b: "processBoldAndCitations 125000 (js ''-- x'') = Inr (Inr [Str (js ''-- x'')])"
    unfolding js_dashes by (simp add: char_defs rx_defs cit_defs bold_defs)
  have t: "trim (js ''-- x'') = js ''-- x''"
    unfolding js_dashes by (simp add: trim_def char_defs)
  have r: "\<not> rx_bullet_header (js ''-- x'') \<and> \<not> rx_nested (js ''-- x'') \<and>
      \<not> rx_bullet (js ''-- x'') \<and> \<not> rx_plus (js ''-- x'') \<and>
      \<not> rx_numbered (js ''-- x'') \<and> \<not> rx_header (js ''-- x'')"
    unfolding js_dashes by (simp add: char_defs rx_defs)
  have n: "js ''-- x'' \<noteq> []" unfolding js_dashes by simp
  have "forEach_body 125000 (0, []) (js ''-- x'', 0) =
      Inr (0, [Paragraph 0 (Inr [Str (js ''-- x'')])])"
    using n r by (simp add: forEach_body_def t b with_content_def)
  moreover have "js ''-- x'' = DASH # DASH # js '' x''"
    unfolding js_dashes x by (simp add: DASH_def)
  ultimately show ?thesis using r t by (simp add: is_bullet_def)
qed

text \<open>
  Claim C7, amended. Every line whose trimmed form starts with a bullet marker, one or
  more white-space characters and a second bullet marker, and which does not match the
  BulletHeader pattern, takes the NestedNumberedItem branch: the content is the line with
  both markers and the white space after each of them stripped, and with the content the
  tokenizer returns for it the block is a NestedNumberedItem, the counter is incremented
  and the display number is the new value of the counter. The tokenizer does return for
  every line no longer than the engine's argument limit.
\<close>

theorem nested_item_line:
  assumes "is_bullet b1" and "is_bullet b2"
    and "ws \<noteq> []" and "\<forall>c\<in>set ws. is_whitespace c"
    and "trim line = b1 # ws @ b2 # rest"
    and "\<not> rx_bullet_header (trim line)"
  shows "forEach_body limit (c, els) (line, i) =
     with_content (processBoldAndCitations limit (dropWhile is_whitespace rest))
       (\<lambda>content. (c + 1, els @ [NestedNumberedItem i (c + 1) content])) \<and>
     (length line \<le> limit \<longrightarrow>
        (\<exists>content. forEach_body limit (c, els) (line, i) =
           Inr (c + 1, els @ [NestedNumberedItem i (c + 1) content])))"
proof -
  from rx_nested_spaced [OF assms(1-4), of rest]
  have "rx_nested (trim line)"
    and "strip_nested (trim line) = dropWhile is_whitespace rest"
    unfolding assms(5) by simp_all
  with assms(5,6) have branch: "forEach_body limit (c, els) (line, i) =
     with_content (processBoldAndCitations limit (dropWhile is_whitespace rest))
       (\<lambda>content. (c + 1, els @ [NestedNumberedItem i (c + 1) content]))"
    by (simp add: forEach_body_def)
  have "\<exists>content. forEach_body limit (c, els) (line, i) =
      Inr (c + 1, els @ [NestedNumberedItem i (c + 1) content])" if "length line \<le> limit"
  proof -
    have "length (dropWhile is_whitespace rest) \<le> length rest"
      by (rule length_dropWhile_le)
    also have "\<dots> \<le> length (trim line)" unfolding assms(5) by simp
    finally have "length (dropWhile is_whitespace rest) \<le> limit"
      using that length_trim [of line] by simp
    from processBoldAndCitations_returns [OF this] show ?thesis
      unfolding branch by (auto simp: with_content_def)
  qed
  with branch show ?thesis by blast
qed

lemma js_agentic:
  "js ''* * Agentic AI refers to autonomy'' =
     STAR # [32] @ STAR # 32 # js ''Agentic AI refers to autonomy''"
  "js ''Agentic AI refers to autonomy'' =
     [65, 103, 101, 110, 116, 105, 99, 32, 65, 73, 32, 114, 101, 102, 101, 114, 115, 32, 116,
      111, 32, 97, 117, 116, 111, 110, 111, 109, 121]"
  by (simp_all add: js_def STAR_def)

lemma bold_agentic:
  "processBoldAndCitations limit (js ''Agentic AI refers to autonomy'') =
     Inr (Inr [Str (js ''Agentic AI refers to autonomy'')])"
  unfolding js_agentic(2)
  by (simp add: char_defs rx_defs cit_defs bold_defs)

lemma agentic_line:
  "trim (js ''* * Agentic AI refers to autonomy'') =
     STAR # [32] @ STAR # 32 # js ''Agentic AI refers to autonomy''"
  "\<not> rx_bullet_header (trim (js ''* * Agentic AI refers to autonomy''))"
  "rx_nested (trim (js ''* * Agentic AI refers to autonomy''))"
  "strip_nested (trim (js ''* * Agentic AI refers to autonomy'')) =
     js ''Agentic AI refers to autonomy''"
  "LF \<notin> set (js ''* * Agentic AI refers to autonomy'')"
  unfolding js_agentic(1) unfolding js_agentic(2)
  by (simp_all add: trim_def strip_nested_def char_defs rx_defs)

text \<open>
  The example of the specification: \<^verbatim>\<open>"* * Agentic AI refers to autonomy"\<close> after a
  counter of 0 is the nested item number 1, and after a counter of 1 the number 2.
\<close>

theorem nested_item_line_witness:
  "is_bullet STAR \<and> [32] \<noteq> [] \<and> list_all is_whitespace [32] \<and>
   trim (js ''* * Agentic AI refers to autonomy'') =
     STAR # [32] @ STAR # 32 # js ''Agentic AI refers to autonomy'' \<and>
   \<not> rx_bullet_header (trim (js ''* * Agentic AI refers to autonomy'')) \<and>
   forEach_body 125000 (0, []) (js ''* * Agentic AI refers to autonomy'', 0) =
     Inr (1, [NestedNumberedItem 0 1 (Inr [Str (js ''Agentic AI refers to autonomy'')])]) \<and>
   forEach_body 125000 (1, []) (js ''* * Agentic AI refers to autonomy'', 1) =
     Inr (2, [NestedNumberedItem 1 2 (Inr [Str (js ''Agentic AI refers to autonomy'')])])"
proof -
  have 1: "is_bullet STAR" by (simp add: is_bullet_def)
  have 3: "[32] \<noteq> ([]::jsstring)" by simp
  have 4: "\<forall>c\<in>set [32]. is_whitespace c" by (simp add: is_whitespace_def)
  have d: "dropWhile is_whitespace (js ''Agentic AI refers to autonomy'') =
      js ''Agentic AI refers to autonomy''"
    unfolding js_agentic(2) by (simp add: char_defs)
  note n = nested_item_line [OF 1 1 3 4 agentic_line(1) agentic_line(2)]
  from n [of 125000 0 "[]" 0] n [of 125000 1 "[]" 1] 1 4 agentic_line(1,2) show ?thesis
    by (simp add: d bold_agentic with_content_def)
qed

section \<open>The numbering register\<close>

text \<open>
  Claim C3. A run of the loop body that returns has pushed one block and left the
  counter as the NumberingRegister asks: 0 after a BulletHeader, one more after a
  NestedNumberedItem, whose display number is that new value, and unchanged after any
  other block. The counter is carried from line to line within one parse: the display
  numbers of every document the parser returns are those of the register started at 0
  (and it returns one for every input no longer than the engine's argument limit). So
  for two BulletHeader lines, each followed by one nested line, both nested items have
  the display number 1.
\<close>

theorem numbering_register:
  "(\<forall>st. forEach_body limit (n, els) (line, i) = Inr st \<longrightarrow>
      (\<exists>b. st = (register_after n b, els @ [b]) \<and>
           (\<forall>k m r. b = NestedNumberedItem k m r \<longrightarrow> m = n + 1))) \<and>
   (\<forall>blocks. document (parseMarkdown limit text) = Some blocks \<longrightarrow>
      register_numbers 0 blocks) \<and>
   (length text \<le> limit \<longrightarrow> (\<exists>blocks. document (parseMarkdown limit text) = Some blocks)) \<and>
   (rx_bullet_header (trim h1) \<and> rx_bullet_header (trim h2) \<and>
    \<not> rx_bullet_header (trim n1) \<and> rx_nested (trim n1) \<and>
    \<not> rx_bullet_header (trim n2) \<and> rx_nested (trim n2) \<and>
    LF \<notin> set h1 \<and> LF \<notin> set n1 \<and> LF \<notin> set h2 \<and> LF \<notin> set n2 \<and>
    processBoldAndCitations limit (strip_bullet (trim h1)) = Inr r1 \<and>
    processBoldAndCitations limit (strip_nested (trim n1)) = Inr r2 \<and>
    processBoldAndCitations limit (strip_bullet (trim h2)) = Inr r3 \<and>
    processBoldAndCitations limit (strip_nested (trim n2)) = Inr r4 \<longrightarrow>
    parseMarkdown limit (h1 @ LF # n1 @ LF # h2 @ LF # n2) =
      Inr (Inr [BulletHeader 0 r1, NestedNumberedItem 1 1 r2,
                BulletHeader 2 r3, NestedNumberedItem 3 1 r4]))"
proof (intro conjI allI impI)
  fix st
  assume "forEach_body limit (n, els) (line, i) = Inr st"
  from forEach_body_step [OF this]
  show "\<exists>b. st = (register_after n b, els @ [b]) \<and>
        (\<forall>k m r. b = NestedNumberedItem k m r \<longrightarrow> m = n + 1)"
    by blast
next
  fix blocks
  assume d: "document (parseMarkdown limit text) = Some blocks"
  show "register_numbers 0 blocks"
  proof (cases "text = []")
    case True
    with d show ?thesis by (simp add: document_parseMarkdown)
  next
    case False
    with d have "parseMarkdown limit text = Inr (Inr blocks)"
      by (simp add: document_parseMarkdown)
    from parseMarkdown_blocks [OF False this] show ?thesis by auto
  qed
next
  assume "length text \<le> limit"
  from parseMarkdown_returns [OF this] obtain d where p: "parseMarkdown limit text = Inr d" ..
  show "\<exists>blocks. document (parseMarkdown limit text) = Some blocks"
    unfolding p by (cases d) (simp_all add: document_def)
next
  assume a: "rx_bullet_header (trim h1) \<and> rx_bullet_header (trim h2) \<and>
    \<not> rx_bullet_header (trim n1) \<and> rx_nested (trim n1) \<and>
    \<not> rx_bullet_header (trim n2) \<and> rx_nested (trim n2) \<and>
    LF \<notin> set h1 \<and> LF \<notin> set n1 \<and> LF \<notin> set h2 \<and> LF \<notin> set n2 \<and>
    processBoldAndCitations limit (strip_bullet (trim h1)) = Inr r1 \<and>
    processBoldAndCitations limit (strip_nested (trim n1)) = Inr r2 \<and>
    processBoldAndCitations limit (strip_bullet (trim h2)) = Inr r3 \<and>
    processBoldAndCitations limit (strip_nested (trim n2)) = Inr r4"
  have ne: "trim l \<noteq> []" if "rx_bullet_header (trim l) \<or> rx_nested (trim l)" for l
    using that by (auto simp: rx_bullet_header_def rx_nested_def)
  have s: "split_lf (h1 @ LF # n1 @ LF # h2 @ LF # n2) = [h1, n1, h2, n2]"
    using a by (simp add: split_lf_append split_lf_no_LF)
  have u: "[0..<4] = [0, 1, 2, Suc 2]"
    by (simp add: upt_conv_Cons)
  have hd: "forEach_body limit (c, els) (l, i) = Inr (0, els @ [BulletHeader i r])"
    if "rx_bullet_header (trim l)"
      and "processBoldAndCitations limit (strip_bullet (trim l)) = Inr r" for c els l i r
    using that ne [of l] by (simp add: forEach_body_def with_content_def)
  have ns: "forEach_body limit (c, els) (l, i) =
      Inr (c + 1, els @ [NestedNumberedItem i (c + 1) r])"
    if "\<not> rx_bullet_header (trim l)" and "rx_nested (trim l)"
      and "processBoldAndCitations limit (strip_nested (trim l)) = Inr r" for c els l i r
    using that ne [of l] by (simp add: forEach_body_def with_content_def)
  from a have "forEach_lines limit [h1, n1, h2, n2] =
      Inr (1, [BulletHeader 0 r1, NestedNumberedItem 1 1 r2,
               BulletHeader 2 r3, NestedNumberedItem 3 1 r4])"
    by (simp add: forEach_lines_def u hd ns)
  then show "parseMarkdown limit (h1 @ LF # n1 @ LF # h2 @ LF # n2) =
      Inr (Inr [BulletHeader 0 r1, NestedNumberedItem 1 1 r2,
                BulletHeader 2 r3, NestedNumberedItem 3 1 r4])"
    by (simp add: parseMarkdown_def s)
qed

lemma js_groups:
  "js ''* **A**:'' = [42, 32, 42, 42, 65, 42, 42, 58]"
  "js ''- **B**'' = [45, 32, 42, 42, 66, 42, 42]"
  "js ''A'' = [65]" "js ''B'' = [66]"
  by (simp_all add: js_def)

lemma group_lines:
  "rx_bullet_header (trim (js ''* **A**:''))"
  "rx_bullet_header (trim (js ''- **B**''))"
  "LF \<notin> set (js ''* **A**:'')" "LF \<notin> set (js ''- **B**'')"
  "processBoldAndCitations limit (strip_bullet (trim (js ''* **A**:''))) =
     Inr (Inr [Strong 0 (js ''A'') (js '':'')])"
  "processBoldAndCitations limit (strip_bullet (trim (js ''- **B**''))) =
     Inr (Inr [Strong 0 (js ''B'') []])"
  unfolding js_groups js_direct(3)
  by (simp_all add: trim_def strip_bullet_def char_defs rx_defs cit_defs bold_defs)

text \<open>
  Two nested lines one after the other are numbered 1 and 2: the counter is carried.
\<close>

lemma two_nested_lines:
  "parseMarkdown limit (js ''* * Agentic AI refers to autonomy'' @ LF #
                        js ''* * Agentic AI refers to autonomy'') =
     Inr (Inr [NestedNumberedItem 0 1 (Inr [Str (js ''Agentic AI refers to autonomy'')]),
               NestedNumberedItem 1 2 (Inr [Str (js ''Agentic AI refers to autonomy'')])])"
proof -
  have s: "split_lf (js ''* * Agentic AI refers to autonomy'' @ LF #
                     js ''* * Agentic AI refers to autonomy'') =
      [js ''* * Agentic AI refers to autonomy'', js ''* * Agentic AI refers to autonomy'']"
    using agentic_line(5) by (simp add: split_lf_append split_lf_no_LF)
  have ne: "trim (js ''* * Agentic AI refers to autonomy'') \<noteq> []"
    by (simp add: agentic_line(1))
  have f: "forEach_body limit (c, els) (js ''* * Agentic AI refers to autonomy'', i) =
      Inr (Suc c, els @ [NestedNumberedItem i (Suc c)
                           (Inr [Str (js ''Agentic AI refers to autonomy'')])])" for c els i
    using ne agentic_line(2,3)
    by (simp add: forEach_body_def agentic_line(4) bold_agentic with_content_def)
  show ?thesis
    by (simp add: parseMarkdown_def forEach_lines_def s f upt_conv_Cons)
qed

theorem numbering_register_witness:
  "rx_bullet_header (trim (js ''* **A**:'')) \<and> rx_bullet_header (trim (js ''- **B**'')) \<and>
   \<not> rx_bullet_header (trim (js ''* * Agentic AI refers to autonomy'')) \<and>
   rx_nested (trim (js ''* * Agentic AI refers to autonomy'')) \<and>
   parseMarkdown 125000
     (js ''* **A**:'' @ LF # js ''* * Agentic AI refers to autonomy'' @ LF #
      js ''- **B**'' @ LF # js ''* * Agentic AI refers to autonomy'') =
     Inr (Inr [BulletHeader 0 (Inr [Strong 0 (js ''A'') (js '':'')]),
          NestedNumberedItem 1 1 (Inr [Str (js ''Agentic AI refers to autonomy'')]),
          BulletHeader 2 (Inr [Strong 0 (js ''B'') []]),
          NestedNumberedItem 3 1 (Inr [Str (js ''Agentic AI refers to autonomy'')])]) \<and>
   document (parseMarkdown 125000 (js ''* * Agentic AI refers to autonomy'' @ LF #
                                   js ''* * Agentic AI refers to autonomy'')) =
     Some [NestedNumberedItem 0 1 (Inr [Str (js ''Agentic AI refers to autonomy'')]),
           NestedNumberedItem 1 2 (Inr [Str (js ''Agentic AI refers to autonomy'')])] \<and>
   register_numbers 0
     [NestedNumberedItem 0 1 (Inr [Str (js ''Agentic AI refers to autonomy'')]),
      NestedNumberedItem 1 2 (Inr [Str (js ''Agentic AI refers to autonomy'')])]"
proof -
  let ?two = "js ''* * Agentic AI refers to autonomy'' @ LF #
              js ''* * Agentic AI refers to autonomy''"
  have d: "document (parseMarkdown 125000 ?two) =
     Some [NestedNumberedItem 0 1 (Inr [Str (js ''Agentic AI refers to autonomy'')]),
           NestedNumberedItem 1 2 (Inr [Str (js ''Agentic AI refers to autonomy'')])]"
    by (simp add: two_nested_lines document_def)
  note t = numbering_register [of 125000 0 "[]" "[]" 0 ?two "js ''* **A**:''" "js ''- **B**''"
      "js ''* * Agentic AI refers to autonomy''" "js ''* * Agentic AI refers to autonomy''"
      "Inr [Strong 0 (js ''A'') (js '':'')]" "Inr [Str (js ''Agentic AI refers to autonomy'')]"
      "Inr [Strong 0 (js ''B'') []]" "Inr [Str (js ''Agentic AI refers to autonomy'')]"]
  from t d have r: "register_numbers 0
     [NestedNumberedItem 0 1 (Inr [Str (js ''Agentic AI refers to autonomy'')]),
      NestedNumberedItem 1 2 (Inr [Str (js ''Agentic AI refers to autonomy'')])]"
    by blast
  from t have "parseMarkdown 125000
     (js ''* **A**:'' @ LF # js ''* * Agentic AI refers to autonomy'' @ LF #
      js ''- **B**'' @ LF # js ''* * Agentic AI refers to autonomy'') =
     Inr (Inr [BulletHeader 0 (Inr [Strong 0 (js ''A'') (js '':'')]),
          NestedNumberedItem 1 1 (Inr [Str (js ''Agentic AI refers to autonomy'')]),
          BulletHeader 2 (Inr [Strong 0 (js ''B'') []]),
          NestedNumberedItem 3 1 (Inr [Str (js ''Agentic AI refers to autonomy'')])])"
    using group_lines agentic_line(2-5)
    by (simp add: agentic_line(4) bold_agentic)
  with d r group_lines(1,2) agentic_line(2,3) show ?thesis by blast
qed

end
